theory Spec2Isabelle
  imports Complex_Main
begin

section \<open>Data model\<close>

text \<open>
  The two scripts of the repository tile a raster into windows
  (\<^verbatim>\<open>create_windows\<close> of \<^verbatim>\<open>calculate_raster_stats.py\<close>), read each window as an
  array, mask the nodata pixels and write minimum, maximum and mean to a CSV file.

  Python's integers are unbounded, so offsets and sizes are \<^typ>\<open>int\<close>. A raised
  exception is the left injection of a sum.
\<close>

datatype py_error = ZeroDivisionError | ValueError | ReadError

text \<open>
  An element of a float64 numpy array, or a numpy float64 scalar: not-a-number or a
  finite value, given by its exact value as a rational. Signed zeros, infinities and the
  limits of the exponent are not represented.
\<close>

datatype npfloat = NaN | Fin rat

text \<open>
  The class \<^verbatim>\<open>rasterio.windows.Window\<close>, which the scripts import from the rasterio
  library: an immutable rectangle of four values. Its constructor checks the two sizes
  and raises \<^verbatim>\<open>ValueError\<close> (number of columns or rows must be non-negative) when
  the width or the height is negative; section 3 of the specification gives a window
  non-negative sizes as well. The offsets are not checked.
\<close>

record window =
  col_off :: int
  row_off :: int
  width :: int
  height :: int

definition Window :: "int \<Rightarrow> int \<Rightarrow> int \<Rightarrow> int \<Rightarrow> py_error + window" where
  "Window col_off_val row_off_val width_val height_val =
     (if width_val < 0 \<or> height_val < 0 then Inl ValueError
      else Inr \<lparr>col_off = col_off_val, row_off = row_off_val,
                width = width_val, height = height_val\<rparr>)"

text \<open>
  The attributes of the opened raster that the scripts read: \<^verbatim>\<open>dataset.height\<close>,
  \<^verbatim>\<open>dataset.width\<close> and \<^verbatim>\<open>dataset.nodata\<close>, which is a float or \<^verbatim>\<open>None\<close>.
\<close>

record dataset =
  ds_height :: int
  ds_width :: int
  ds_nodata :: "npfloat option"

text \<open>
  A window array is what \<^verbatim>\<open>dataset.read(1, window=wind)\<close> returns: a two-dimensional
  array, here the list of its rows. The raster profile recorded in
  \<^verbatim>\<open>inspect_and_plot_raster_data.py\<close> has \<^verbatim>\<open>'dtype': 'uint16'\<close>; pixels are integers.
\<close>

type_synonym pixels = "int list list"

type_synonym stats = "npfloat option \<times> npfloat option \<times> npfloat option"

section \<open>The grid tiler\<close>

text \<open>
  \<^verbatim>\<open>dataset.height/nb_of_rows\<close> is Python's true division of two integers and raises
  \<^verbatim>\<open>ZeroDivisionError\<close> on a zero divisor. The quotient is kept exact (a rational);
  the float that Python computes has the same ceiling as long as the dividend is below
  \<open>2 ^ 53\<close>.
\<close>

definition true_div :: "int \<Rightarrow> int \<Rightarrow> py_error + rat" where
  "true_div a b = (if b = 0 then Inl ZeroDivisionError else Inr (of_int a / of_int b))"

definition math_ceil :: "rat \<Rightarrow> int" where
  "math_ceil x = \<lceil>x\<rceil>"

text \<open>
  The inner loop \<^verbatim>\<open>for j in range(nb_of_cols)\<close> with its body, lines 51 to 68; \<open>j\<close> is
  the loop counter and \<open>windows_list\<close> the list appended to. An exception of the
  constructor at line 66 is not caught: it ends the loop and the function.
\<close>

function cols_loop ::
  "dataset \<Rightarrow> int \<Rightarrow> int \<Rightarrow> int \<Rightarrow> int \<Rightarrow> int \<Rightarrow> int \<Rightarrow> window list \<Rightarrow>
   py_error + window list"
where
  "cols_loop ds nb_of_rows nb_of_cols tile_height tile_width i j windows_list =
     (if j < nb_of_cols then
        (let row_off_val = i * tile_height;
             col_off_val = j * tile_width;
             height_val = (if i = nb_of_rows - 1 then ds_height ds - row_off_val
                           else tile_height);
             width_val = (if j = nb_of_cols - 1 then ds_width ds - col_off_val
                          else tile_width)
         in (case Window col_off_val row_off_val width_val height_val of
               Inl e \<Rightarrow> Inl e
             | Inr window \<Rightarrow>
                 cols_loop ds nb_of_rows nb_of_cols tile_height tile_width i (j + 1)
                   (windows_list @ [window])))
      else Inr windows_list)"
  by pat_completeness auto
termination
  by (relation "measure (\<lambda>(ds, nr, nc, th, tw, i, j, ws). nat (nc - j))") auto

text \<open>The outer loop \<^verbatim>\<open>for i in range(nb_of_rows)\<close>, line 50.\<close>

function rows_loop ::
  "dataset \<Rightarrow> int \<Rightarrow> int \<Rightarrow> int \<Rightarrow> int \<Rightarrow> int \<Rightarrow> window list \<Rightarrow> py_error + window list"
where
  "rows_loop ds nb_of_rows nb_of_cols tile_height tile_width i windows_list =
     (if i < nb_of_rows then
        (case cols_loop ds nb_of_rows nb_of_cols tile_height tile_width i 0 windows_list of
           Inl e \<Rightarrow> Inl e
         | Inr windows_list' \<Rightarrow>
             rows_loop ds nb_of_rows nb_of_cols tile_height tile_width (i + 1) windows_list')
      else Inr windows_list)"
  by pat_completeness auto
termination
  by (relation "measure (\<lambda>(ds, nr, nc, th, tw, i, ws). nat (nr - i))") auto

text \<open>
  \<^verbatim>\<open>create_windows(dataset, nb_of_rows, nb_of_cols)\<close>: both tile sizes are computed
  before the loops, so a zero row or column count raises before any window is made.
\<close>

definition create_windows :: "dataset \<Rightarrow> int \<Rightarrow> int \<Rightarrow> py_error + window list" where
  "create_windows ds nb_of_rows nb_of_cols =
     (case true_div (ds_height ds) nb_of_rows of
        Inl e \<Rightarrow> Inl e
      | Inr qh \<Rightarrow>
          (case true_div (ds_width ds) nb_of_cols of
             Inl e \<Rightarrow> Inl e
           | Inr qw \<Rightarrow>
               (let tile_height = math_ceil qh;
                    tile_width = math_ceil qw
                in rows_loop ds nb_of_rows nb_of_cols tile_height tile_width 0 [])))"

section \<open>The numpy and Python operations of the reduction\<close>

text \<open>
  \<^verbatim>\<open>array == nodata_value\<close>, element by element. A pixel never equals \<^verbatim>\<open>None\<close> and
  never equals not-a-number.
\<close>

fun pixel_eq :: "int \<Rightarrow> npfloat option \<Rightarrow> bool" where
  "pixel_eq p None = False"
| "pixel_eq p (Some NaN) = False"
| "pixel_eq p (Some (Fin v)) = (of_int p = v)"

definition np_equal :: "pixels \<Rightarrow> npfloat option \<Rightarrow> bool list list" where
  "np_equal array v = map (map (\<lambda>p. pixel_eq p v)) array"

text \<open>
  \<^verbatim>\<open>np.where(cond, x, array)\<close> with a float scalar \<open>x\<close> and an integer array: the
  result is a new floating-point array, each pixel converted to a float.
\<close>

definition np_where :: "bool list list \<Rightarrow> npfloat \<Rightarrow> pixels \<Rightarrow> npfloat list list" where
  "np_where cond x array =
     map (\<lambda>(cs, ps). map (\<lambda>(c, p). if c then x else Fin (of_int p)) (zip cs ps))
       (zip cond array)"

definition np_isnan :: "npfloat list list \<Rightarrow> bool list list" where
  "np_isnan a = map (map (\<lambda>x. x = NaN)) a"

definition np_all :: "bool list list \<Rightarrow> bool" where
  "np_all a = list_all (list_all (\<lambda>b. b)) a"

text \<open>The elements of a float array that are not not-a-number, in order.\<close>

definition finite_values :: "npfloat list list \<Rightarrow> rat list" where
  "finite_values a = concat (map (\<lambda>x. case x of NaN \<Rightarrow> [] | Fin v \<Rightarrow> [v]) (concat a))"

text \<open>
  \<^verbatim>\<open>np.nanmin\<close> and \<^verbatim>\<open>np.nanmax\<close> raise \<^verbatim>\<open>ValueError\<close> on an array of size zero
  and return not-a-number (with a warning) on a non-empty array that is all
  not-a-number. \<^verbatim>\<open>np.nanmean\<close> returns not-a-number in both cases.
\<close>

definition np_nanmin :: "npfloat list list \<Rightarrow> py_error + npfloat" where
  "np_nanmin a =
     (if concat a = [] then Inl ValueError
      else (case finite_values a of
              [] \<Rightarrow> Inr NaN
            | v # vs \<Rightarrow> Inr (Fin (fold min vs v))))"

definition np_nanmax :: "npfloat list list \<Rightarrow> py_error + npfloat" where
  "np_nanmax a =
     (if concat a = [] then Inl ValueError
      else (case finite_values a of
              [] \<Rightarrow> Inr NaN
            | v # vs \<Rightarrow> Inr (Fin (fold max vs v))))"

text \<open>
  Rounding to the nearest integer with ties to the even one: numpy's \<^verbatim>\<open>rint\<close>, and the
  rounding of the significand of every float64 operation.
\<close>

definition round_half_even :: "rat \<Rightarrow> int" where
  "round_half_even x =
     (let f = \<lfloor>x\<rfloor>; d = x - of_int f
      in if d < 1 / 2 then f else if 1 / 2 < d then f + 1
         else if even f then f else f + 1)"

text \<open>
  The float64 nearest to a rational, ties to even: the significand has 53 bits, so a
  value between \<open>2 ^ e\<close> and \<open>2 ^ (e + 1)\<close> is rounded to a multiple of
  \<open>2 ^ (e - 52)\<close>. \<open>log2_floor\<close> is the floor of the binary logarithm of a positive
  integer and \<open>ilog2\<close> that of a positive rational.
\<close>

function log2_floor :: "int \<Rightarrow> int" where
  "log2_floor n = (if n < 2 then 0 else 1 + log2_floor (n div 2))"
  by pat_completeness auto
termination
  by (relation "measure nat") auto

definition ilog2 :: "rat \<Rightarrow> int" where
  "ilog2 a =
     (case quotient_of a of
        (p, q) \<Rightarrow>
          (let e0 = log2_floor p - log2_floor q
           in if 2 powi e0 \<le> a then e0 else e0 - 1))"

definition fl64 :: "rat \<Rightarrow> rat" where
  "fl64 x =
     (if x = 0 then 0
      else (let ulp = 2 powi (ilog2 \<bar>x\<bar> - 52)
            in of_int (round_half_even (x / ulp)) * ulp))"

text \<open>
  \<^verbatim>\<open>np.nanmean\<close>: the sum of the elements that are not not-a-number, divided by their
  number in float64. The sum of integer-valued floats is exact as long as it stays
  below \<open>2 ^ 53\<close>, and is kept exact here.
\<close>

definition np_nanmean :: "npfloat list list \<Rightarrow> npfloat" where
  "np_nanmean a =
     (case finite_values a of
        [] \<Rightarrow> NaN
      | v # vs \<Rightarrow> Fin (fl64 (sum_list (v # vs) / of_nat (length (v # vs)))))"

text \<open>
  \<^verbatim>\<open>round(x, ndigits)\<close> of a numpy float64 is numpy's rounding: the float is multiplied
  by \<open>10 ^ ndigits\<close>, rounded to an integer by \<^verbatim>\<open>rint\<close> and divided by
  \<open>10 ^ ndigits\<close>; the product and the quotient are float64 operations. The argument
  is a float64 (a rational that is not one is taken to the nearest float64 first).
\<close>

fun py_round :: "npfloat \<Rightarrow> nat \<Rightarrow> npfloat" where
  "py_round NaN ndigits = NaN"
| "py_round (Fin x) ndigits =
     Fin (fl64 (of_int (round_half_even (fl64 (fl64 x * 10 ^ ndigits))) / 10 ^ ndigits))"

text \<open>\<^verbatim>\<open>str\<close> of a Python integer.\<close>

definition digit_char :: "nat \<Rightarrow> char" where
  "digit_char d = ''0123456789'' ! d"

function str_nat :: "nat \<Rightarrow> string" where
  "str_nat n = (if n < 10 then [digit_char n] else str_nat (n div 10) @ [digit_char (n mod 10)])"
  by pat_completeness auto
termination
  by (relation "measure (\<lambda>n. n)") auto

definition str_int :: "int \<Rightarrow> string" where
  "str_int i = (if i < 0 then ''-'' @ str_nat (nat (- i)) else str_nat (nat i))"

text \<open>
  \<^verbatim>\<open>str\<close> of a numpy float64 is the shortest decimal that reads back as the same
  float64, written with at least one digit after the point. An integer-valued float is
  written with all its digits and \<^verbatim>\<open>.0\<close>. Otherwise \<open>shortest_decimal\<close> tries 1, 2,
  ... digits after the point, rounding the value to that many digits, until the decimal
  reads back as the float; \<open>frac_digits\<close> writes the digits after the point of a
  finite decimal. Exponent notation, used by Python below \<open>10 ^ - 4\<close> and from
  \<open>10 ^ 16\<close> on, is not represented.
\<close>

fun frac_digits :: "nat \<Rightarrow> rat \<Rightarrow> string" where
  "frac_digits 0 f = []"
| "frac_digits (Suc k) f =
     (if f = 0 then []
      else (let d = \<lfloor>f * 10\<rfloor> in digit_char (nat d) # frac_digits k (f * 10 - of_int d)))"

fun shortest_decimal :: "nat \<Rightarrow> nat \<Rightarrow> rat \<Rightarrow> rat" where
  "shortest_decimal 0 d a = of_int (round_half_even (a * 10 ^ d)) / 10 ^ d"
| "shortest_decimal (Suc fuel) d a =
     (let c = of_int (round_half_even (a * 10 ^ d)) / 10 ^ d
      in if fl64 c = a then c else shortest_decimal fuel (Suc d) a)"

fun str_float :: "npfloat \<Rightarrow> string" where
  "str_float NaN = ''nan''"
| "str_float (Fin x) =
     (let a = \<bar>x\<bar>;
          c = (if a = of_int \<lfloor>a\<rfloor> then a else shortest_decimal 24 1 a);
          ip = \<lfloor>c\<rfloor>;
          fd = frac_digits 25 (c - of_int ip)
      in (if x < 0 then ''-'' else []) @ str_nat (nat ip) @ ''.'' @
         (if fd = [] then ''0'' else fd))"

text \<open>\<^verbatim>\<open>str\<close> of a statistic: \<^verbatim>\<open>None\<close> or a numpy float.\<close>

fun str_value :: "npfloat option \<Rightarrow> string" where
  "str_value None = ''None''"
| "str_value (Some x) = str_float x"

section \<open>The windowed statistics and the CSV file\<close>

text \<open>
  The mask of both scripts (line 95 of \<^verbatim>\<open>calculate_raster_stats.py\<close>, line 67 of
  \<^verbatim>\<open>inspect_and_plot_raster_data.py\<close>):
  \<^verbatim>\<open>np.where(array == nodata_value, np.nan, array)\<close>.
\<close>

definition mask_nodata :: "npfloat option \<Rightarrow> pixels \<Rightarrow> npfloat list list" where
  "mask_nodata nodata_value array = np_where (np_equal array nodata_value) NaN array"

text \<open>
  Lines 95 to 103 of \<^verbatim>\<open>calculate_raster_stats.py\<close>: the mask, the guard for an array
  that is all not-a-number, and the three reductions. An exception of a reduction is not
  caught by the script.
\<close>

definition window_stats :: "npfloat option \<Rightarrow> pixels \<Rightarrow> py_error + stats" where
  "window_stats nodata_value array =
     (let array_masked = mask_nodata nodata_value array
      in if np_all (np_isnan array_masked) then Inr (None, None, None)
         else (case np_nanmin array_masked of
                 Inl e \<Rightarrow> Inl e
               | Inr min_cover \<Rightarrow>
                   (case np_nanmax array_masked of
                      Inl e \<Rightarrow> Inl e
                    | Inr max_cover \<Rightarrow>
                        Inr (Some min_cover, Some max_cover,
                             Some (py_round (np_nanmean array_masked) 2)))))"

text \<open>
  Lines 67 to 70 of \<^verbatim>\<open>inspect_and_plot_raster_data.py\<close>: the three values that the
  inspection script prints for its one window. There is no guard here.
\<close>

definition inspect_stats ::
  "npfloat option \<Rightarrow> pixels \<Rightarrow> py_error + (npfloat \<times> npfloat \<times> npfloat)"
where
  "inspect_stats nodata_value array =
     (let array_masked = mask_nodata nodata_value array
      in (case np_nanmin array_masked of
            Inl e \<Rightarrow> Inl e
          | Inr min_value \<Rightarrow>
              (case np_nanmax array_masked of
                 Inl e \<Rightarrow> Inl e
               | Inr max_value \<Rightarrow>
                   Inr (min_value, max_value, py_round (np_nanmean array_masked) 2))))"

text \<open>Line 105: the text written for one window.\<close>

definition csv_line :: "int \<Rightarrow> stats \<Rightarrow> string" where
  "csv_line id' st =
     (case st of (min_cover, max_cover, avg_cover) \<Rightarrow>
        (''array_'' @ str_int id') @ '','' @ str_value min_cover @ '','' @
        str_value max_cover @ '','' @ str_value avg_cover @ [CHR 0x0A])"

text \<open>
  The loop \<^verbatim>\<open>for wind in windows\<close>, lines 85 to 106. Reading a window is an effect
  on the outside world: \<open>read\<close> takes the state of the world and returns the array or
  the exception raised, and the next state. The loop carries the world, the counter
  \<^verbatim>\<open>id\<close> and the contents of the file. What the script prints is left out.
\<close>

fun windows_loop ::
  "('s \<Rightarrow> window \<Rightarrow> (py_error + pixels) \<times> 's) \<Rightarrow> npfloat option \<Rightarrow> window list \<Rightarrow>
   's \<Rightarrow> int \<Rightarrow> string \<Rightarrow> py_error + ('s \<times> int \<times> string)"
where
  "windows_loop read nodata_value [] s id' file = Inr (s, id', file)"
| "windows_loop read nodata_value (wind # windows) s id' file =
     (case read s wind of
        (Inl e, s') \<Rightarrow> windows_loop read nodata_value windows s' id' file
      | (Inr array, s') \<Rightarrow>
          (case window_stats nodata_value array of
             Inl e \<Rightarrow> Inl e
           | Inr st \<Rightarrow>
               windows_loop read nodata_value windows s' (id' + 1)
                 (file @ csv_line id' st)))"

text \<open>
  Lines 72 to 106: the grid of 8 by 8 windows, the header line, the loop. The result is
  the contents of \<^verbatim>\<open>treecover_stats.csv\<close>.
\<close>

definition columns :: string where
  "columns = ''array,minimum_cover,maximum_cover,average_cover''"

definition stats_script ::
  "('s \<Rightarrow> window \<Rightarrow> (py_error + pixels) \<times> 's) \<Rightarrow> dataset \<Rightarrow> 's \<Rightarrow> py_error + string"
where
  "stats_script read ds s =
     (case create_windows ds 8 8 of
        Inl e \<Rightarrow> Inl e
      | Inr windows \<Rightarrow>
          (case windows_loop read (ds_nodata ds) windows s 1 (columns @ [CHR 0x0A]) of
             Inl e \<Rightarrow> Inl e
           | Inr (s', id', file) \<Rightarrow> Inr file))"

section \<open>Vocabulary of the properties\<close>

text \<open>
  The ceiling of a quotient of integers, as the properties of the grid name it.
\<close>

definition ceil_div :: "int \<Rightarrow> int \<Rightarrow> int" where
  "ceil_div a b = \<lceil>(of_int a :: rat) / of_int b\<rceil>"

text \<open>
  The window that one pass of the inner loop body asks the constructor for, at row \<open>i\<close>
  and column \<open>j\<close>, and the list of them in the order of the two loops.
\<close>

definition window_at :: "dataset \<Rightarrow> int \<Rightarrow> int \<Rightarrow> int \<Rightarrow> int \<Rightarrow> int \<Rightarrow> int \<Rightarrow> window" where
  "window_at ds nb_of_rows nb_of_cols tile_height tile_width i j =
     \<lparr>col_off = j * tile_width, row_off = i * tile_height,
      width = (if j = nb_of_cols - 1 then ds_width ds - j * tile_width else tile_width),
      height = (if i = nb_of_rows - 1 then ds_height ds - i * tile_height else tile_height)\<rparr>"

definition grid :: "dataset \<Rightarrow> int \<Rightarrow> int \<Rightarrow> window list" where
  "grid ds nr nc =
     concat (map (\<lambda>i. map (window_at ds nr nc (ceil_div (ds_height ds) nr)
       (ceil_div (ds_width ds) nc) i) [0..nc - 1]) [0..nr - 1])"

text \<open>The sizes that the constructor of a window accepts.\<close>

definition nonneg_sizes :: "window \<Rightarrow> bool" where
  "nonneg_sizes w \<longleftrightarrow> 0 \<le> width w \<and> 0 \<le> height w"

text \<open>
  The pixels of a window, as pairs of a row and a column, and those of the raster.
\<close>

definition cells :: "window \<Rightarrow> (int \<times> int) set" where
  "cells w = {row_off w ..< row_off w + height w} \<times> {col_off w ..< col_off w + width w}"

definition extent_cells :: "dataset \<Rightarrow> (int \<times> int) set" where
  "extent_cells ds = {0 ..< ds_height ds} \<times> {0 ..< ds_width ds}"

text \<open>
  A list of windows partitions the raster: together they cover exactly its pixels, and
  two windows at different positions of the list share none.
\<close>

definition partitions :: "window list \<Rightarrow> dataset \<Rightarrow> bool" where
  "partitions ws ds \<longleftrightarrow>
     (\<Union>w\<in>set ws. cells w) = extent_cells ds \<and>
     (\<forall>k<length ws. \<forall>l<length ws. k \<noteq> l \<longrightarrow> cells (ws ! k) \<inter> cells (ws ! l) = {})"

text \<open>The invariant of a window of the data model.\<close>

definition window_wf :: "dataset \<Rightarrow> window \<Rightarrow> bool" where
  "window_wf ds w \<longleftrightarrow>
     0 \<le> row_off w \<and> 0 \<le> col_off w \<and> 0 \<le> height w \<and> 0 \<le> width w \<and>
     row_off w + height w \<le> ds_height ds \<and> col_off w + width w \<le> ds_width ds"

text \<open>The rows (or columns) of the \<open>i\<close>-th band of a grid of \<open>n\<close> bands of size \<open>t\<close>.\<close>

definition band :: "int \<Rightarrow> int \<Rightarrow> int \<Rightarrow> int \<Rightarrow> int set" where
  "band n t h i = {i * t ..< i * t + (if i = n - 1 then h - i * t else t)}"

text \<open>
  The pixels of a window array that the mask keeps: those that do not compare equal to
  \<^verbatim>\<open>nodata_value\<close>, in reading order. Their arithmetic mean, as a rational number.
\<close>

definition valid_pixels :: "npfloat option \<Rightarrow> pixels \<Rightarrow> int list" where
  "valid_pixels nodata_value array = filter (\<lambda>p. \<not> pixel_eq p nodata_value) (concat array)"

definition mean_of :: "int list \<Rightarrow> rat" where
  "mean_of xs = of_int (sum_list xs) / of_nat (length xs)"

text \<open>
  The reduction as section 4.2 of the specification words it: the result is absent when
  every pixel is missing, and otherwise the minimum, the maximum and the mean rounded to
  two decimal places of the pixels that are not missing.
\<close>

definition reduce :: "pixels \<Rightarrow> npfloat option \<Rightarrow> stats" where
  "reduce array nodata =
     (let valid = valid_pixels nodata array
      in if valid = [] then (None, None, None)
         else (Some (Fin (of_int (Min (set valid)))),
               Some (Fin (of_int (Max (set valid)))),
               Some (py_round (Fin (mean_of valid)) 2)))"

text \<open>
  What the reads of a run return, one after the other, for the list of windows; the
  arrays of the reads that succeeded; the number of reads that failed.
\<close>

fun read_outcomes ::
  "('s \<Rightarrow> window \<Rightarrow> (py_error + pixels) \<times> 's) \<Rightarrow> 's \<Rightarrow> window list \<Rightarrow> (py_error + pixels) list"
where
  "read_outcomes read s [] = []"
| "read_outcomes read s (wind # windows) =
     (case read s wind of (r, s') \<Rightarrow> r # read_outcomes read s' windows)"

fun successes :: "(py_error + pixels) list \<Rightarrow> pixels list" where
  "successes [] = []"
| "successes (Inl e # rs) = successes rs"
| "successes (Inr array # rs) = array # successes rs"

fun failures :: "(py_error + pixels) list \<Rightarrow> nat" where
  "failures [] = 0"
| "failures (Inl e # rs) = Suc (failures rs)"
| "failures (Inr array # rs) = failures rs"

text \<open>The lines written for a list of statistics, numbered from \<open>k\<close>.\<close>

fun csv_rows :: "int \<Rightarrow> stats list \<Rightarrow> string list" where
  "csv_rows k [] = []"
| "csv_rows k (st # sts) = csv_line k st # csv_rows (k + 1) sts"

text \<open>A decimal digit, and the number that a string of decimal digits denotes.\<close>

definition is_digit :: "char \<Rightarrow> bool" where
  "is_digit c \<longleftrightarrow> c \<in> set ''0123456789''"

definition dec_value :: "string \<Rightarrow> nat" where
  "dec_value s = foldl (\<lambda>a c. 10 * a + (of_char c - 48)) 0 s"

section \<open>The loops of the tiler as lists\<close>

lemma band_cover:
  assumes n: "0 < n" and t: "0 < t" and fit: "(n - 1) * t \<le> h"
  shows "(\<Union>i\<in>{0..n - 1}. band n t h i) = {0..<h}"
proof (rule set_eqI, rule iffI)
  fix x assume "x \<in> (\<Union>i\<in>{0..n - 1}. band n t h i)"
  then obtain i where i: "0 \<le> i" "i \<le> n - 1" and x: "x \<in> band n t h i" by auto
  have lo: "0 \<le> i * t" using i t by simp
  show "x \<in> {0..<h}"
  proof (cases "i = n - 1")
    case True
    then show ?thesis using x lo by (auto simp: band_def)
  next
    case False
    then have "i + 1 \<le> n - 1" using i by simp
    then have "(i + 1) * t \<le> (n - 1) * t" using t by (intro mult_right_mono) simp_all
    then show ?thesis using x lo fit False by (auto simp: band_def algebra_simps)
  qed
next
  fix x assume "x \<in> {0..<h}"
  then have x: "0 \<le> x" "x < h" by simp_all
  show "x \<in> (\<Union>i\<in>{0..n - 1}. band n t h i)"
  proof (cases "x < (n - 1) * t")
    case True
    define i where "i = x div t"
    have eq: "i * t + x mod t = x" unfolding i_def by simp
    have m: "0 \<le> x mod t" "x mod t < t" using t by simp_all
    have i0: "0 \<le> i" unfolding i_def using x t by (simp add: pos_imp_zdiv_nonneg_iff)
    have "i * t < (n - 1) * t" using eq m True by linarith
    then have i1: "i < n - 1" using t by (simp add: mult_less_cancel_right)
    have "x \<in> band n t h i" using i1 eq m by (auto simp: band_def algebra_simps)
    then show ?thesis using i0 i1 by force
  next
    case False
    then have "x \<in> band n t h (n - 1)" using x by (simp add: band_def)
    then show ?thesis using n by force
  qed
qed

lemma band_disjoint:
  assumes t: "0 < t" and ik: "i < k" and k: "k \<le> n - 1"
  shows "band n t h i \<inter> band n t h k = {}"
proof -
  have "i + 1 \<le> k" using ik by simp
  then have "(i + 1) * t \<le> k * t" using t by (intro mult_right_mono) simp_all
  moreover have "i \<noteq> n - 1" using ik k by simp
  ultimately show ?thesis by (auto simp: band_def algebra_simps)
qed

lemma upto_map_int: "[0..int k - 1] = map int [0..<k]"
proof (induction k)
  case 0
  then show ?case by simp
next
  case (Suc k)
  have "[0..int (Suc k) - 1] = [0..int k - 1] @ [int k]"
    using upto_rec2[of 0 "int k"] by simp
  then show ?case using Suc by simp
qed

lemma nth_concat_uniform:
  "\<forall>xs\<in>set xss. length xs = m \<Longrightarrow> i < length xss \<Longrightarrow> j < m \<Longrightarrow>
   concat xss ! (i * m + j) = xss ! i ! j"
proof (induction xss arbitrary: i)
  case Nil
  then show ?case by simp
next
  case (Cons xs xss)
  show ?case
  proof (cases i)
    case 0
    then show ?thesis using Cons.prems by (simp add: nth_append)
  next
    case (Suc i')
    have "Suc i' * m + j = length xs + (i' * m + j)" using Cons.prems by simp
    then show ?thesis using Cons Suc by (simp add: nth_append)
  qed
qed

lemma length_concat_uniform:
  "\<forall>xs\<in>set xss. length xs = m \<Longrightarrow> length (concat xss) = length xss * m"
  by (induction xss) simp_all

declare cols_loop.simps [simp del] rows_loop.simps [simp del]

lemma Window_cases:
  "Window c r w h =
     (if nonneg_sizes \<lparr>col_off = c, row_off = r, width = w, height = h\<rparr>
      then Inr \<lparr>col_off = c, row_off = r, width = w, height = h\<rparr> else Inl ValueError)"
  by (auto simp: Window_def nonneg_sizes_def)

lemma cols_loop_eq:
  "cols_loop ds nr nc th tw i j acc =
     (if list_all nonneg_sizes (map (window_at ds nr nc th tw i) [j..nc - 1])
      then Inr (acc @ map (window_at ds nr nc th tw i) [j..nc - 1])
      else Inl ValueError)"
proof (induction ds nr nc th tw i j acc rule: cols_loop.induct)
  case (1 ds nr nc th tw i j acc)
  show ?case
  proof (cases "j < nc")
    case True
    have u: "[j..nc - 1] = j # [j + 1..nc - 1]" using True by (simp add: upto_rec1)
    let ?w = "window_at ds nr nc th tw i j"
    have w: "Window (j * tw) (i * th)
               (if j = nc - 1 then ds_width ds - j * tw else tw)
               (if i = nr - 1 then ds_height ds - i * th else th) =
             (if nonneg_sizes ?w then Inr ?w else Inl ValueError)"
      unfolding Window_cases window_at_def by simp
    show ?thesis
    proof (cases "nonneg_sizes ?w")
      case ok: True
      have c: "Window (j * tw) (i * th)
               (if j = nc - 1 then ds_width ds - j * tw else tw)
               (if i = nr - 1 then ds_height ds - i * th else th) = Inr ?w"
        using w ok by simp
      have "cols_loop ds nr nc th tw i (j + 1) (acc @ [?w]) =
              (if list_all nonneg_sizes (map (window_at ds nr nc th tw i) [j + 1..nc - 1])
               then Inr ((acc @ [?w]) @ map (window_at ds nr nc th tw i) [j + 1..nc - 1])
               else Inl ValueError)"
        by (rule 1[OF True refl refl refl refl c])
      then show ?thesis
        using True ok c by (subst cols_loop.simps) (simp add: u Let_def)
    next
      case bad: False
      have c: "Window (j * tw) (i * th)
               (if j = nc - 1 then ds_width ds - j * tw else tw)
               (if i = nr - 1 then ds_height ds - i * th else th) = Inl ValueError"
        using w bad by simp
      show ?thesis
        using True bad c by (subst cols_loop.simps) (simp add: u Let_def)
    qed
  next
    case False
    then show ?thesis by (subst cols_loop.simps) simp
  qed
qed

lemma rows_loop_eq:
  "rows_loop ds nr nc th tw i acc =
     (if list_all nonneg_sizes
           (concat (map (\<lambda>i. map (window_at ds nr nc th tw i) [0..nc - 1]) [i..nr - 1]))
      then Inr (acc @ concat (map (\<lambda>i. map (window_at ds nr nc th tw i) [0..nc - 1]) [i..nr - 1]))
      else Inl ValueError)"
proof (induction ds nr nc th tw i acc rule: rows_loop.induct)
  case (1 ds nr nc th tw i acc)
  show ?case
  proof (cases "i < nr")
    case True
    have u: "[i..nr - 1] = i # [i + 1..nr - 1]" using True by (simp add: upto_rec1)
    let ?row = "map (window_at ds nr nc th tw i) [0..nc - 1]"
    show ?thesis
    proof (cases "list_all nonneg_sizes ?row")
      case ok: True
      have c: "cols_loop ds nr nc th tw i 0 acc = Inr (acc @ ?row)"
        using ok by (simp add: cols_loop_eq)
      show ?thesis
        using True ok 1[OF True c]
        by (subst rows_loop.simps) (simp add: u c)
    next
      case bad: False
      have c: "cols_loop ds nr nc th tw i 0 acc = Inl ValueError"
        using bad by (simp add: cols_loop_eq)
      show ?thesis
        using True bad by (subst rows_loop.simps) (simp add: u c)
    qed
  next
    case False
    then show ?thesis by (subst rows_loop.simps) simp
  qed
qed

text \<open>
  For counts that are not zero the two loops either build the whole grid, or stop with
  the \<^verbatim>\<open>ValueError\<close> of the first window whose width or height is negative.
\<close>

lemma create_windows_eq:
  "nr \<noteq> 0 \<Longrightarrow> nc \<noteq> 0 \<Longrightarrow>
   create_windows ds nr nc =
     (if list_all nonneg_sizes (grid ds nr nc) then Inr (grid ds nr nc) else Inl ValueError)"
  by (simp add: create_windows_def true_div_def math_ceil_def rows_loop_eq grid_def ceil_div_def)

lemma create_windows_zero:
  "nr = 0 \<or> nc = 0 \<Longrightarrow> create_windows ds nr nc = Inl ZeroDivisionError"
  by (auto simp add: create_windows_def true_div_def)

lemma create_windows_InrD:
  assumes "create_windows ds nr nc = Inr ws"
  shows "nr \<noteq> 0 \<and> nc \<noteq> 0 \<and> ws = grid ds nr nc \<and> list_all nonneg_sizes (grid ds nr nc)"
proof -
  have z: "nr \<noteq> 0 \<and> nc \<noteq> 0"
  proof (rule ccontr)
    assume "\<not> (nr \<noteq> 0 \<and> nc \<noteq> 0)"
    then have "create_windows ds nr nc = Inl ZeroDivisionError"
      by (intro create_windows_zero) auto
    then show False using assms by simp
  qed
  then show ?thesis
    using assms create_windows_eq[of nr nc ds] by (auto split: if_splits)
qed

lemma ceil_div_eq_div: "ceil_div a b = - (- a div b)"
  unfolding ceil_div_def by (rule ceiling_divide_eq_div)

lemma ceil_div_pos: "0 < a \<Longrightarrow> 0 < b \<Longrightarrow> 0 < ceil_div a b"
  by (simp add: ceil_div_def)

lemma upto_nat: "[0..n - 1] = map int [0..<nat n]"
proof (cases "0 \<le> n")
  case True
  then show ?thesis using upto_map_int[of "nat n"] by simp
next
  case False
  then show ?thesis by simp
qed

lemma length_grid: "length (grid ds nr nc) = nat nr * nat nc"
  unfolding grid_def
  by (subst length_concat_uniform[where m = "nat nc"]) (auto simp: upto_nat)

lemma nth_grid:
  assumes i: "0 \<le> i" "i < nr" and j: "0 \<le> j" "j < nc"
  shows "grid ds nr nc ! (nat i * nat nc + nat j) =
         window_at ds nr nc (ceil_div (ds_height ds) nr) (ceil_div (ds_width ds) nc) i j"
proof -
  let ?f = "window_at ds nr nc (ceil_div (ds_height ds) nr) (ceil_div (ds_width ds) nc)"
  let ?xss = "map (\<lambda>i. map (?f i) [0..nc - 1]) [0..nr - 1]"
  have len: "\<forall>xs\<in>set ?xss. length xs = nat nc" by (auto simp: upto_nat)
  have li: "nat i < length ?xss" using i by (simp add: upto_nat)
  have lj: "nat j < nat nc" using j by simp
  have "concat ?xss ! (nat i * nat nc + nat j) = ?xss ! nat i ! nat j"
    by (rule nth_concat_uniform[OF len li lj])
  also have "\<dots> = ?f i j" using i j by (simp add: upto_nat)
  finally show ?thesis by (simp add: grid_def)
qed

lemma set_grid:
  "set (grid ds nr nc) =
     (\<lambda>(i, j). window_at ds nr nc (ceil_div (ds_height ds) nr) (ceil_div (ds_width ds) nc) i j)
       ` ({0..nr - 1} \<times> {0..nc - 1})"
  by (auto simp: grid_def)

lemma cells_window_at:
  "cells (window_at ds nr nc th tw i j) = band nr th (ds_height ds) i \<times> band nc tw (ds_width ds) j"
  by (simp add: cells_def window_at_def band_def)

text \<open>
  No size of the grid is negative exactly when the first \<open>nb_of_rows - 1\<close> rows of tiles
  fit in the height and the first \<open>nb_of_cols - 1\<close> columns of tiles in the width; so
  \<^verbatim>\<open>create_windows\<close> returns exactly then, and raises \<^verbatim>\<open>ValueError\<close> otherwise.
\<close>

lemma grid_sizes_iff_fits:
  assumes "0 < ds_height ds" "0 < ds_width ds" "0 < nr" "0 < nc"
  shows "list_all nonneg_sizes (grid ds nr nc) \<longleftrightarrow>
         (nr - 1) * ceil_div (ds_height ds) nr \<le> ds_height ds \<and>
         (nc - 1) * ceil_div (ds_width ds) nc \<le> ds_width ds"
proof -
  let ?th = "ceil_div (ds_height ds) nr" and ?tw = "ceil_div (ds_width ds) nc"
  have th: "0 < ?th" and tw: "0 < ?tw" using assms by (simp_all add: ceil_div_pos)
  have "list_all nonneg_sizes (grid ds nr nc) \<longleftrightarrow>
        (\<forall>i\<in>{0..nr - 1}. \<forall>j\<in>{0..nc - 1}. nonneg_sizes (window_at ds nr nc ?th ?tw i j))"
    by (auto simp: list_all_iff set_grid)
  also have "\<dots> \<longleftrightarrow> nonneg_sizes (window_at ds nr nc ?th ?tw (nr - 1) (nc - 1))"
  proof
    assume a: "\<forall>i\<in>{0..nr - 1}. \<forall>j\<in>{0..nc - 1}. nonneg_sizes (window_at ds nr nc ?th ?tw i j)"
    have "nr - 1 \<in> {0..nr - 1}" "nc - 1 \<in> {0..nc - 1}" using assms by simp_all
    then show "nonneg_sizes (window_at ds nr nc ?th ?tw (nr - 1) (nc - 1))" using a by blast
  next
    assume "nonneg_sizes (window_at ds nr nc ?th ?tw (nr - 1) (nc - 1))"
    then show "\<forall>i\<in>{0..nr - 1}. \<forall>j\<in>{0..nc - 1}. nonneg_sizes (window_at ds nr nc ?th ?tw i j)"
      using th tw by (simp add: nonneg_sizes_def window_at_def)
  qed
  also have "\<dots> \<longleftrightarrow> (nr - 1) * ?th \<le> ds_height ds \<and> (nc - 1) * ?tw \<le> ds_width ds"
    by (auto simp: nonneg_sizes_def window_at_def)
  finally show ?thesis .
qed

lemma create_windows_returns_iff_fits:
  assumes "0 < ds_height ds" "0 < ds_width ds" "0 < nr" "0 < nc"
  shows "(\<exists>ws. create_windows ds nr nc = Inr ws) \<longleftrightarrow>
         (nr - 1) * ceil_div (ds_height ds) nr \<le> ds_height ds \<and>
         (nc - 1) * ceil_div (ds_width ds) nc \<le> ds_width ds"
  using assms grid_sizes_iff_fits[OF assms] create_windows_eq[of nr nc ds] by auto

lemma create_windows_raises:
  assumes "0 < ds_height ds" "0 < ds_width ds" "0 < nr" "0 < nc"
    and "ds_height ds < (nr - 1) * ceil_div (ds_height ds) nr \<or>
         ds_width ds < (nc - 1) * ceil_div (ds_width ds) nc"
  shows "create_windows ds nr nc = Inl ValueError"
  using assms grid_sizes_iff_fits[OF assms(1-4)] create_windows_eq[of nr nc ds] by auto

lemma create_windows_fits:
  assumes "0 < ds_height ds" "0 < ds_width ds" "0 < nr" "0 < nc"
    and "(nr - 1) * ceil_div (ds_height ds) nr \<le> ds_height ds"
    and "(nc - 1) * ceil_div (ds_width ds) nc \<le> ds_width ds"
  shows "create_windows ds nr nc = Inr (grid ds nr nc)"
  using assms grid_sizes_iff_fits[OF assms(1-4)] create_windows_eq[of nr nc ds] by auto

lemma grid_cover:
  assumes "0 < ds_height ds" "0 < ds_width ds" "0 < nr" "0 < nc"
    and "(nr - 1) * ceil_div (ds_height ds) nr \<le> ds_height ds"
    and "(nc - 1) * ceil_div (ds_width ds) nc \<le> ds_width ds"
  shows "(\<Union>w\<in>set (grid ds nr nc). cells w) = extent_cells ds"
proof -
  let ?th = "ceil_div (ds_height ds) nr" and ?tw = "ceil_div (ds_width ds) nc"
  have th: "0 < ?th" and tw: "0 < ?tw" using assms by (simp_all add: ceil_div_pos)
  have "(\<Union>w\<in>set (grid ds nr nc). cells w) =
        (\<Union>(i, j)\<in>{0..nr - 1} \<times> {0..nc - 1}.
           band nr ?th (ds_height ds) i \<times> band nc ?tw (ds_width ds) j)"
    unfolding set_grid by (simp add: cells_window_at split_def)
  also have "\<dots> = (\<Union>i\<in>{0..nr - 1}. band nr ?th (ds_height ds) i) \<times>
                   (\<Union>j\<in>{0..nc - 1}. band nc ?tw (ds_width ds) j)"
    by (rule UN_Times_distrib)
  also have "\<dots> = extent_cells ds"
    unfolding extent_cells_def
    using band_cover[OF assms(3) th assms(5)] band_cover[OF assms(4) tw assms(6)] by simp
  finally show ?thesis .
qed

lemma band_disjoint_neq:
  assumes "0 < t" "0 \<le> i" "i \<le> n - 1" "0 \<le> k" "k \<le> n - 1" "i \<noteq> k"
  shows "band n t h i \<inter> band n t h k = {}"
proof (cases "i < k")
  case True
  then show ?thesis using assms band_disjoint[of t i k n h] by simp
next
  case False
  then have "k < i" using assms by simp
  then show ?thesis using assms band_disjoint[of t k i n h] by blast
qed

lemma index_split:
  assumes "k < nat nr * nat nc"
  shows "\<exists>i j. 0 \<le> i \<and> i < nr \<and> 0 \<le> j \<and> j < nc \<and> k = nat i * nat nc + nat j"
proof -
  have nc: "0 < nat nc" using assms by (cases "nat nc") simp_all
  let ?i = "int (k div nat nc)" and ?j = "int (k mod nat nc)"
  have "k div nat nc < nat nr" using assms nc
    by (simp add: less_mult_imp_div_less)
  then have "?i < nr" by simp
  moreover have "k mod nat nc < nat nc" using nc by simp
  then have "?j < nc" by linarith
  moreover have "k = nat ?i * nat nc + nat ?j" by simp
  ultimately show ?thesis by (intro exI[of _ ?i] exI[of _ ?j]) simp
qed

lemma grid_disjoint:
  assumes "0 < ds_height ds" "0 < ds_width ds" "0 < nr" "0 < nc"
    and k: "k < length (grid ds nr nc)" and l: "l < length (grid ds nr nc)" and kl: "k \<noteq> l"
  shows "cells (grid ds nr nc ! k) \<inter> cells (grid ds nr nc ! l) = {}"
proof -
  let ?th = "ceil_div (ds_height ds) nr" and ?tw = "ceil_div (ds_width ds) nc"
  have th: "0 < ?th" and tw: "0 < ?tw" using assms by (simp_all add: ceil_div_pos)
  have len: "length (grid ds nr nc) = nat nr * nat nc" by (rule length_grid)
  obtain i j where ij: "0 \<le> i" "i < nr" "0 \<le> j" "j < nc" "k = nat i * nat nc + nat j"
    using index_split k len by metis
  obtain i' j' where ij': "0 \<le> i'" "i' < nr" "0 \<le> j'" "j' < nc" "l = nat i' * nat nc + nat j'"
    using index_split l len by metis
  have ck: "cells (grid ds nr nc ! k) = band nr ?th (ds_height ds) i \<times> band nc ?tw (ds_width ds) j"
    using ij by (simp add: nth_grid cells_window_at)
  have cl: "cells (grid ds nr nc ! l) = band nr ?th (ds_height ds) i' \<times> band nc ?tw (ds_width ds) j'"
    using ij' by (simp add: nth_grid cells_window_at)
  have "i \<noteq> i' \<or> j \<noteq> j'" using kl ij ij' by auto
  then show ?thesis
  proof
    assume "i \<noteq> i'"
    then have "band nr ?th (ds_height ds) i \<inter> band nr ?th (ds_height ds) i' = {}"
      using band_disjoint_neq[OF th] ij ij' by simp
    then show ?thesis unfolding ck cl by blast
  next
    assume "j \<noteq> j'"
    then have "band nc ?tw (ds_width ds) j \<inter> band nc ?tw (ds_width ds) j' = {}"
      using band_disjoint_neq[OF tw] ij ij' by simp
    then show ?thesis unfolding ck cl by blast
  qed
qed

lemma grid_partitions:
  assumes "0 < ds_height ds" "0 < ds_width ds" "0 < nr" "0 < nc"
    and "(nr - 1) * ceil_div (ds_height ds) nr \<le> ds_height ds"
    and "(nc - 1) * ceil_div (ds_width ds) nc \<le> ds_width ds"
  shows "partitions (grid ds nr nc) ds"
  unfolding partitions_def
  using grid_cover[OF assms] grid_disjoint[OF assms(1-4)] by blast

lemma grid_row_major:
  assumes "0 \<le> i" "i < nr" "0 \<le> j" "j < nc"
  shows "grid ds nr nc ! nat (i * nc + j) =
         window_at ds nr nc (ceil_div (ds_height ds) nr) (ceil_div (ds_width ds) nc) i j"
proof -
  have "nat (i * nc + j) = nat i * nat nc + nat j"
    using assms by (simp add: nat_add_distrib nat_mult_distrib)
  then show ?thesis using assms by (simp add: nth_grid)
qed

lemma grid_well_formed:
  assumes "0 < ds_height ds" "0 < ds_width ds" "0 < nr" "0 < nc"
    and "(nr - 1) * ceil_div (ds_height ds) nr \<le> ds_height ds"
    and "(nc - 1) * ceil_div (ds_width ds) nc \<le> ds_width ds"
  shows "\<forall>w\<in>set (grid ds nr nc). window_wf ds w"
proof -
  let ?th = "ceil_div (ds_height ds) nr" and ?tw = "ceil_div (ds_width ds) nc"
  have th: "0 < ?th" and tw: "0 < ?tw" using assms by (simp_all add: ceil_div_pos)
  have wf: "window_wf ds (window_at ds nr nc ?th ?tw i j)"
    if i: "0 \<le> i" "i \<le> nr - 1" and j: "0 \<le> j" "j \<le> nc - 1" for i j
  proof -
    have r0: "0 \<le> i * ?th" and c0: "0 \<le> j * ?tw" using i j th tw by simp_all
    have r1: "i * ?th \<le> (nr - 1) * ?th" using i th by (intro mult_right_mono) simp_all
    have c1: "j * ?tw \<le> (nc - 1) * ?tw" using j tw by (intro mult_right_mono) simp_all
    have r2: "(i + 1) * ?th \<le> (nr - 1) * ?th" if "i \<noteq> nr - 1"
      using that i th by (intro mult_right_mono) simp_all
    have c2: "(j + 1) * ?tw \<le> (nc - 1) * ?tw" if "j \<noteq> nc - 1"
      using that j tw by (intro mult_right_mono) simp_all
    show ?thesis
      unfolding window_wf_def window_at_def
      using r0 c0 r1 c1 r2 c2 th tw assms(5,6) by (auto simp: algebra_simps)
  qed
  show ?thesis unfolding set_grid using wf by auto
qed

section \<open>Properties of the grid\<close>

text \<open>
  Claim C1, as amended. For a raster of positive height and width and positive
  \<open>nb_of_rows\<close> and \<open>nb_of_cols\<close> such that the first \<open>nb_of_rows - 1\<close> rows of tiles
  fit in the height, \<open>(nb_of_rows - 1) * ceil (height / nb_of_rows) \<le> height\<close>, and
  likewise the columns in the width, \<^verbatim>\<open>create_windows\<close> returns a list of windows that
  partitions the raster: the union of the windows' pixels is the whole raster and two
  distinct windows share no pixel.
\<close>

theorem create_windows_partitions:
  assumes "0 < ds_height ds" "0 < ds_width ds" "0 < nb_of_rows" "0 < nb_of_cols"
    and "(nb_of_rows - 1) * ceil_div (ds_height ds) nb_of_rows \<le> ds_height ds"
    and "(nb_of_cols - 1) * ceil_div (ds_width ds) nb_of_cols \<le> ds_width ds"
  shows "\<exists>ws. create_windows ds nb_of_rows nb_of_cols = Inr ws \<and> partitions ws ds"
  using create_windows_fits[OF assms] grid_partitions[OF assms] by blast

text \<open>The theorem at the raster of 10 by 10 pixels cut into 2 by 2 tiles.\<close>

theorem create_windows_partitions_witness:
  "create_windows \<lparr>ds_height = 10, ds_width = 10, ds_nodata = Some (Fin 255)\<rparr> 2 2 =
     Inr [\<lparr>col_off = 0, row_off = 0, width = 5, height = 5\<rparr>,
          \<lparr>col_off = 5, row_off = 0, width = 5, height = 5\<rparr>,
          \<lparr>col_off = 0, row_off = 5, width = 5, height = 5\<rparr>,
          \<lparr>col_off = 5, row_off = 5, width = 5, height = 5\<rparr>] \<and>
   partitions [\<lparr>col_off = 0, row_off = 0, width = 5, height = 5\<rparr>,
          \<lparr>col_off = 5, row_off = 0, width = 5, height = 5\<rparr>,
          \<lparr>col_off = 0, row_off = 5, width = 5, height = 5\<rparr>,
          \<lparr>col_off = 5, row_off = 5, width = 5, height = 5\<rparr>]
     \<lparr>ds_height = 10, ds_width = 10, ds_nodata = Some (Fin 255)\<rparr>"
proof -
  let ?ds = "\<lparr>ds_height = 10, ds_width = 10, ds_nodata = Some (Fin 255)\<rparr>"
  have c: "create_windows ?ds 2 2 =
     Inr [\<lparr>col_off = 0, row_off = 0, width = 5, height = 5\<rparr>,
          \<lparr>col_off = 5, row_off = 0, width = 5, height = 5\<rparr>,
          \<lparr>col_off = 0, row_off = 5, width = 5, height = 5\<rparr>,
          \<lparr>col_off = 5, row_off = 5, width = 5, height = 5\<rparr>]"
    by code_simp
  have "\<exists>ws. create_windows ?ds 2 2 = Inr ws \<and> partitions ws ?ds"
    by (rule create_windows_partitions) (simp_all add: ceil_div_eq_div)
  then show ?thesis unfolding c by simp
qed

text \<open>
  Claim C1 as it was stated asks only \<open>nb_of_rows \<le> height\<close> and \<open>nb_of_cols \<le> width\<close>.
  A raster of 5 by 5 pixels cut into 4 rows and 1 column satisfies that; the tile height
  is 2, the last row of tiles starts at row 6 and its window is asked with height
  \<open>- 1\<close>, so the constructor raises \<^verbatim>\<open>ValueError\<close> and no list of windows is returned.
\<close>

theorem create_windows_partitions_counterexample:
  "(0 :: int) < ds_height \<lparr>ds_height = 5, ds_width = 5, ds_nodata = Some (Fin 255)\<rparr> \<and>
   (0 :: int) < ds_width \<lparr>ds_height = 5, ds_width = 5, ds_nodata = Some (Fin 255)\<rparr> \<and>
   (0 :: int) < 4 \<and> 4 \<le> ds_height \<lparr>ds_height = 5, ds_width = 5, ds_nodata = Some (Fin 255)\<rparr> \<and>
   (0 :: int) < 1 \<and> 1 \<le> ds_width \<lparr>ds_height = 5, ds_width = 5, ds_nodata = Some (Fin 255)\<rparr> \<and>
   create_windows \<lparr>ds_height = 5, ds_width = 5, ds_nodata = Some (Fin 255)\<rparr> 4 1 =
     Inl ValueError"
proof -
  have "create_windows \<lparr>ds_height = 5, ds_width = 5, ds_nodata = Some (Fin 255)\<rparr> 4 1 =
     Inl ValueError"
    by code_simp
  then show ?thesis by simp
qed

text \<open>
  Claim C2, as amended. For a raster of positive height and width and positive
  \<open>nb_of_rows\<close> and \<open>nb_of_cols\<close> such that
  \<open>(nb_of_rows - 1) * ceil (height / nb_of_rows) \<le> height\<close> and
  \<open>(nb_of_cols - 1) * ceil (width / nb_of_cols) \<le> width\<close>, \<^verbatim>\<open>create_windows\<close> returns
  \<open>nb_of_rows * nb_of_cols\<close> windows in row-major order: the window at index
  \<open>i * nb_of_cols + j\<close> has row offset \<open>i * ceil (height / nb_of_rows)\<close> and column
  offset \<open>j * ceil (width / nb_of_cols)\<close>.
\<close>

theorem create_windows_row_major:
  assumes "0 < ds_height ds" "0 < ds_width ds" "0 < nb_of_rows" "0 < nb_of_cols"
    and "(nb_of_rows - 1) * ceil_div (ds_height ds) nb_of_rows \<le> ds_height ds"
    and "(nb_of_cols - 1) * ceil_div (ds_width ds) nb_of_cols \<le> ds_width ds"
  shows "\<exists>ws. create_windows ds nb_of_rows nb_of_cols = Inr ws \<and>
           length ws = nat (nb_of_rows * nb_of_cols) \<and>
           (\<forall>i j. 0 \<le> i \<and> i < nb_of_rows \<and> 0 \<le> j \<and> j < nb_of_cols \<longrightarrow>
              row_off (ws ! nat (i * nb_of_cols + j)) = i * ceil_div (ds_height ds) nb_of_rows \<and>
              col_off (ws ! nat (i * nb_of_cols + j)) = j * ceil_div (ds_width ds) nb_of_cols)"
proof -
  let ?ws = "grid ds nb_of_rows nb_of_cols"
  have c: "create_windows ds nb_of_rows nb_of_cols = Inr ?ws"
    by (rule create_windows_fits[OF assms])
  have l: "length ?ws = nat (nb_of_rows * nb_of_cols)"
    using assms by (simp add: length_grid nat_mult_distrib)
  have n: "row_off (?ws ! nat (i * nb_of_cols + j)) = i * ceil_div (ds_height ds) nb_of_rows \<and>
           col_off (?ws ! nat (i * nb_of_cols + j)) = j * ceil_div (ds_width ds) nb_of_cols"
    if "0 \<le> i \<and> i < nb_of_rows \<and> 0 \<le> j \<and> j < nb_of_cols" for i j
    using that by (simp add: grid_row_major window_at_def)
  show ?thesis using c l n by blast
qed

text \<open>The theorem at a raster of 10 by 7 pixels cut into 3 by 2 tiles, last window.\<close>

theorem create_windows_row_major_witness:
  "\<exists>ws. create_windows \<lparr>ds_height = 10, ds_width = 7, ds_nodata = None\<rparr> 3 2 = Inr ws \<and>
     length ws = 6 \<and> row_off (ws ! 5) = 8 \<and> col_off (ws ! 5) = 4"
proof -
  let ?ds = "\<lparr>ds_height = 10, ds_width = 7, ds_nodata = None\<rparr>"
  have "\<exists>ws. create_windows ?ds 3 2 = Inr ws \<and>
           length ws = nat (3 * 2) \<and>
           (\<forall>i j. 0 \<le> i \<and> i < 3 \<and> 0 \<le> j \<and> j < 2 \<longrightarrow>
              row_off (ws ! nat (i * 2 + j)) = i * ceil_div (ds_height ?ds) 3 \<and>
              col_off (ws ! nat (i * 2 + j)) = j * ceil_div (ds_width ?ds) 2)"
    by (rule create_windows_row_major) (simp_all add: ceil_div_eq_div)
  then obtain ws where ws: "create_windows ?ds 3 2 = Inr ws" "length ws = nat (3 * 2)"
    and ix: "\<forall>i j. 0 \<le> i \<and> i < 3 \<and> 0 \<le> j \<and> j < 2 \<longrightarrow>
              row_off (ws ! nat (i * 2 + j)) = i * ceil_div (ds_height ?ds) 3 \<and>
              col_off (ws ! nat (i * 2 + j)) = j * ceil_div (ds_width ?ds) 2"
    by auto
  have "row_off (ws ! 5) = 8 \<and> col_off (ws ! 5) = 4"
    using ix[rule_format, of 2 1] by (simp add: ceil_div_eq_div)
  then show ?thesis using ws by auto
qed

text \<open>
  Claim C2 as it was stated asks only that \<open>nb_of_rows\<close> and \<open>nb_of_cols\<close> are positive.
  For a raster of 13 by 13 pixels and the 8 by 8 grid of the script the tile size is 2,
  the last offset is 14 and the last size is \<open>- 1\<close>: the constructor raises
  \<^verbatim>\<open>ValueError\<close> and \<^verbatim>\<open>create_windows\<close> returns no list.
\<close>

theorem create_windows_row_major_counterexample:
  "(0 :: int) < 8 \<and>
   create_windows \<lparr>ds_height = 13, ds_width = 13, ds_nodata = Some (Fin 255)\<rparr> 8 8 =
     Inl ValueError"
proof -
  have "create_windows \<lparr>ds_height = 13, ds_width = 13, ds_nodata = Some (Fin 255)\<rparr> 8 8 =
     Inl ValueError"
    by code_simp
  then show ?thesis by simp
qed

text \<open>
  Claim C3. In a list that \<^verbatim>\<open>create_windows\<close> returns, which has one window for each
  row and column of the grid, a window that is not in the last row of the grid has
  height \<open>ceil (height / nb_of_rows)\<close>, one that is not in the last column has width
  \<open>ceil (width / nb_of_cols)\<close>; a window of the last row has the height that is left
  below its row offset, and a window of the last column the width that is left right of
  its column offset.
\<close>

theorem create_windows_sizes:
  assumes "create_windows ds nb_of_rows nb_of_cols = Inr ws"
  shows "length ws = nat nb_of_rows * nat nb_of_cols \<and>
         (\<forall>i j. 0 \<le> i \<and> i < nb_of_rows \<and> 0 \<le> j \<and> j < nb_of_cols \<longrightarrow>
              (i \<noteq> nb_of_rows - 1 \<longrightarrow>
                 height (ws ! nat (i * nb_of_cols + j)) = ceil_div (ds_height ds) nb_of_rows) \<and>
              (j \<noteq> nb_of_cols - 1 \<longrightarrow>
                 width (ws ! nat (i * nb_of_cols + j)) = ceil_div (ds_width ds) nb_of_cols) \<and>
              (i = nb_of_rows - 1 \<longrightarrow>
                 height (ws ! nat (i * nb_of_cols + j)) =
                   ds_height ds - row_off (ws ! nat (i * nb_of_cols + j))) \<and>
              (j = nb_of_cols - 1 \<longrightarrow>
                 width (ws ! nat (i * nb_of_cols + j)) =
                   ds_width ds - col_off (ws ! nat (i * nb_of_cols + j))))"
proof -
  have ws: "ws = grid ds nb_of_rows nb_of_cols"
    using create_windows_InrD[OF assms] by simp
  show ?thesis
    unfolding ws by (intro conjI allI impI length_grid) (simp_all add: grid_row_major window_at_def)
qed

text \<open>The theorem at the same raster: a window of the middle row and the last window.\<close>

theorem create_windows_sizes_witness:
  "\<exists>ws. create_windows \<lparr>ds_height = 10, ds_width = 7, ds_nodata = None\<rparr> 3 2 = Inr ws \<and>
     length ws = 6 \<and> height (ws ! 2) = 4 \<and> width (ws ! 2) = 4 \<and>
     height (ws ! 5) = 10 - row_off (ws ! 5) \<and> width (ws ! 5) = 7 - col_off (ws ! 5)"
proof -
  let ?ds = "\<lparr>ds_height = 10, ds_width = 7, ds_nodata = None\<rparr>"
  obtain ws where ws: "create_windows ?ds 3 2 = Inr ws"
    using create_windows_fits[of ?ds 3 2] by (simp add: ceil_div_eq_div)
  have l: "length ws = nat 3 * nat 2"
    and ix: "\<forall>i j. 0 \<le> i \<and> i < 3 \<and> 0 \<le> j \<and> j < 2 \<longrightarrow>
              (i \<noteq> 3 - 1 \<longrightarrow> height (ws ! nat (i * 2 + j)) = ceil_div (ds_height ?ds) 3) \<and>
              (j \<noteq> 2 - 1 \<longrightarrow> width (ws ! nat (i * 2 + j)) = ceil_div (ds_width ?ds) 2) \<and>
              (i = 3 - 1 \<longrightarrow> height (ws ! nat (i * 2 + j)) =
                   ds_height ?ds - row_off (ws ! nat (i * 2 + j))) \<and>
              (j = 2 - 1 \<longrightarrow> width (ws ! nat (i * 2 + j)) =
                   ds_width ?ds - col_off (ws ! nat (i * 2 + j)))"
    using create_windows_sizes[OF ws] by blast+
  have a: "height (ws ! 2) = 4 \<and> width (ws ! 2) = 4"
    using ix[rule_format, of 1 0] by (simp add: ceil_div_eq_div)
  have b: "height (ws ! 5) = 10 - row_off (ws ! 5) \<and> width (ws ! 5) = 7 - col_off (ws ! 5)"
    using ix[rule_format, of 2 1] by simp
  show ?thesis using ws l a b by auto
qed

text \<open>
  Claim C4. For \<open>0 < nb_of_rows \<le> height\<close> and \<open>0 < nb_of_cols \<le> width\<close>, every window
  of a list that \<^verbatim>\<open>create_windows\<close> returns is well formed: offsets and sizes are not
  negative, and the window ends inside the raster. (On the inputs of that domain where
  a tile would start outside the raster, the constructor raises and no window is
  produced.)
\<close>

theorem create_windows_well_formed:
  assumes "0 < nb_of_rows" "nb_of_rows \<le> ds_height ds" "0 < nb_of_cols" "nb_of_cols \<le> ds_width ds"
    and "create_windows ds nb_of_rows nb_of_cols = Inr ws"
  shows "\<forall>w\<in>set ws. window_wf ds w"
proof -
  have h: "0 < ds_height ds" "0 < ds_width ds" using assms by simp_all
  have ws: "ws = grid ds nb_of_rows nb_of_cols"
    and ok: "list_all nonneg_sizes (grid ds nb_of_rows nb_of_cols)"
    using create_windows_InrD[OF assms(5)] by simp_all
  have "(nb_of_rows - 1) * ceil_div (ds_height ds) nb_of_rows \<le> ds_height ds \<and>
        (nb_of_cols - 1) * ceil_div (ds_width ds) nb_of_cols \<le> ds_width ds"
    using ok grid_sizes_iff_fits[OF h assms(1) assms(3)] by simp
  then show ?thesis
    unfolding ws using grid_well_formed[OF h assms(1) assms(3)] by blast
qed

text \<open>The theorem at a raster of 10 by 7 pixels cut into 3 by 2 tiles.\<close>

theorem create_windows_well_formed_witness:
  "create_windows \<lparr>ds_height = 10, ds_width = 7, ds_nodata = None\<rparr> 3 2 =
     Inr [\<lparr>col_off = 0, row_off = 0, width = 4, height = 4\<rparr>,
          \<lparr>col_off = 4, row_off = 0, width = 3, height = 4\<rparr>,
          \<lparr>col_off = 0, row_off = 4, width = 4, height = 4\<rparr>,
          \<lparr>col_off = 4, row_off = 4, width = 3, height = 4\<rparr>,
          \<lparr>col_off = 0, row_off = 8, width = 4, height = 2\<rparr>,
          \<lparr>col_off = 4, row_off = 8, width = 3, height = 2\<rparr>] \<and>
   window_wf \<lparr>ds_height = 10, ds_width = 7, ds_nodata = None\<rparr>
     \<lparr>col_off = 4, row_off = 8, width = 3, height = 2\<rparr>"
proof -
  let ?ds = "\<lparr>ds_height = 10, ds_width = 7, ds_nodata = None\<rparr>"
  have c: "create_windows ?ds 3 2 =
     Inr [\<lparr>col_off = 0, row_off = 0, width = 4, height = 4\<rparr>,
          \<lparr>col_off = 4, row_off = 0, width = 3, height = 4\<rparr>,
          \<lparr>col_off = 0, row_off = 4, width = 4, height = 4\<rparr>,
          \<lparr>col_off = 4, row_off = 4, width = 3, height = 4\<rparr>,
          \<lparr>col_off = 0, row_off = 8, width = 4, height = 2\<rparr>,
          \<lparr>col_off = 4, row_off = 8, width = 3, height = 2\<rparr>]"
    by code_simp
  show ?thesis
    using create_windows_well_formed[OF _ _ _ _ c] c by simp
qed

section \<open>Rounding to the nearest float\<close>

declare log2_floor.simps [simp del]

lemma round_half_even_close: "\<bar>of_int (round_half_even y) - y\<bar> \<le> 1 / 2"
proof -
  define d where "d = y - of_int \<lfloor>y\<rfloor>"
  have d: "0 \<le> d" "d < 1" unfolding d_def by linarith+
  have y: "y = of_int \<lfloor>y\<rfloor> + d" unfolding d_def by simp
  consider "d < 1 / 2" | "1 / 2 < d" | "d = 1 / 2" by linarith
  then show ?thesis
  proof cases
    case 1
    then have "round_half_even y = \<lfloor>y\<rfloor>"
      by (simp add: round_half_even_def Let_def d_def)
    then show ?thesis using d 1 y by (simp add: abs_if)
  next
    case 2
    then have "round_half_even y = \<lfloor>y\<rfloor> + 1"
      by (simp add: round_half_even_def Let_def d_def)
    then show ?thesis using d 2 y by (simp add: abs_if)
  next
    case 3
    then have "round_half_even y = \<lfloor>y\<rfloor> \<or> round_half_even y = \<lfloor>y\<rfloor> + 1"
      by (simp add: round_half_even_def Let_def d_def)
    then show ?thesis using d 3 y by (auto simp: abs_if)
  qed
qed

lemma round_half_even_of_int: "round_half_even (of_int j) = j"
  by (simp add: round_half_even_def)

lemma round_half_even_floor: "\<lfloor>y\<rfloor> \<le> round_half_even y \<and> round_half_even y \<le> \<lfloor>y\<rfloor> + 1"
  by (simp add: round_half_even_def Let_def)

lemma round_half_even_ge: "of_int a \<le> y \<Longrightarrow> a \<le> round_half_even y"
proof -
  assume "of_int a \<le> y"
  then have "a \<le> \<lfloor>y\<rfloor>" by (simp add: le_floor_iff)
  then show ?thesis using round_half_even_floor[of y] by linarith
qed

lemma round_half_even_le: "y \<le> of_int b \<Longrightarrow> round_half_even y \<le> b"
proof (cases "y = of_int b")
  case True
  then show ?thesis by (simp add: round_half_even_of_int)
next
  case False
  assume "y \<le> of_int b"
  then have "y < of_int b" using False by simp
  then have "\<lfloor>y\<rfloor> < b" by (simp add: floor_less_iff)
  then show ?thesis using round_half_even_floor[of y] by linarith
qed

lemma log2_floor_bounds:
  "1 \<le> n \<Longrightarrow> 0 \<le> log2_floor n \<and> 2 ^ nat (log2_floor n) \<le> n \<and> n < 2 * 2 ^ nat (log2_floor n)"
proof (induction n rule: log2_floor.induct)
  case (1 n)
  show ?case
  proof (cases "n < 2")
    case True
    then have "n = 1" using 1 by simp
    then show ?thesis by (simp add: log2_floor.simps)
  next
    case False
    then have h: "1 \<le> n div 2" by simp
    have ih: "0 \<le> log2_floor (n div 2)" "2 ^ nat (log2_floor (n div 2)) \<le> n div 2"
      "n div 2 < 2 * 2 ^ nat (log2_floor (n div 2))"
      using 1(1)[OF False h] by simp_all
    have l: "log2_floor n = 1 + log2_floor (n div 2)"
      using False by (subst log2_floor.simps) simp
    have p: "(2 :: int) ^ nat (log2_floor n) = 2 * 2 ^ nat (log2_floor (n div 2))"
      using ih(1) by (simp add: l nat_add_distrib)
    have "2 * (n div 2) \<le> n" "n < 2 * (n div 2) + 2" by presburger+
    then show ?thesis using ih p l by simp
  qed
qed

lemma powi_2_pos: "0 < (2 :: rat) powi e"
  by simp

lemma powi_2_Suc: "(2 :: rat) powi (e + 1) = 2 * 2 powi e"
  by (simp add: power_int_add)

lemma powi_2_nat: "0 \<le> e \<Longrightarrow> (2 :: rat) powi e = of_int (2 ^ nat e)"
  by (simp add: power_int_nonneg_exp)

lemma powi_2_mono: "e \<le> e' \<Longrightarrow> (2 :: rat) powi e \<le> 2 powi e'"
  by (rule power_int_increasing) simp_all

lemma int_bounds_rat:
  assumes "0 \<le> l" "2 ^ nat l \<le> n" "n < 2 * 2 ^ nat l"
  shows "2 powi l \<le> (of_int n :: rat) \<and> (of_int n :: rat) < 2 * 2 powi l"
proof -
  have "(of_int (2 ^ nat l) :: rat) \<le> of_int n" using assms(2) by (simp only: of_int_le_iff)
  moreover have "(of_int n :: rat) < of_int (2 * 2 ^ nat l)"
    using assms(3) by (simp only: of_int_less_iff)
  ultimately show ?thesis using assms(1) by (simp add: power_int_nonneg_exp)
qed

lemma ilog2_bounds:
  assumes "0 < a"
  shows "2 powi (ilog2 a) \<le> a \<and> a < 2 powi (ilog2 a + 1)"
proof -
  obtain p q where pq: "quotient_of a = (p, q)" by (cases "quotient_of a")
  have q: "0 < q" using pq by (rule quotient_of_denom_pos)
  have a: "a = of_int p / of_int q" using pq by (rule quotient_of_div)
  have p: "0 < p" using assms q a by (simp add: zero_less_divide_iff)
  let ?lp = "log2_floor p" and ?lq = "log2_floor q"
  have bp: "0 \<le> ?lp" "2 ^ nat ?lp \<le> p" "p < 2 * 2 ^ nat ?lp"
    using log2_floor_bounds[of p] p by simp_all
  have bq: "0 \<le> ?lq" "2 ^ nat ?lq \<le> q" "q < 2 * 2 ^ nat ?lq"
    using log2_floor_bounds[of q] q by simp_all
  have P: "2 powi ?lp \<le> (of_int p :: rat)" "(of_int p :: rat) < 2 * 2 powi ?lp"
    using int_bounds_rat[OF bp] by simp_all
  have Q: "2 powi ?lq \<le> (of_int q :: rat)" "(of_int q :: rat) < 2 * 2 powi ?lq"
    using int_bounds_rat[OF bq] by simp_all
  have aq: "a * of_int q = of_int p" using a q by simp
  have d: "(2 :: rat) powi ?lp = 2 powi (?lp - ?lq) * 2 powi ?lq"
    by (simp flip: power_int_add)
  have up: "a < 2 powi (?lp - ?lq + 1)"
  proof -
    have "a * 2 powi ?lq \<le> a * of_int q" using Q(1) assms by simp
    also have "\<dots> < 2 * 2 powi ?lp" using aq P(2) by simp
    also have "\<dots> = (2 * 2 powi (?lp - ?lq)) * 2 powi ?lq" using d by simp
    finally have "a < 2 * 2 powi (?lp - ?lq)" by simp
    then show ?thesis by (simp add: powi_2_Suc)
  qed
  have lo: "2 powi (?lp - ?lq - 1) \<le> a"
  proof -
    have "(2 :: rat) powi (?lp - ?lq - 1) * (2 * 2 powi ?lq) = 2 powi ?lp"
      using powi_2_Suc[of "?lp - ?lq - 1"] d by simp
    also have "\<dots> \<le> a * of_int q" using aq P(1) by simp
    also have "\<dots> \<le> a * (2 * 2 powi ?lq)" using Q(2) assms by simp
    finally show ?thesis by simp
  qed
  show ?thesis
  proof (cases "2 powi (?lp - ?lq) \<le> a")
    case True
    then have "ilog2 a = ?lp - ?lq" by (simp add: ilog2_def pq)
    then show ?thesis using True up by simp
  next
    case False
    then have e: "ilog2 a = ?lp - ?lq - 1" by (simp add: ilog2_def pq)
    have "a < 2 powi (?lp - ?lq - 1 + 1)" using False by simp
    then show ?thesis using lo e by simp
  qed
qed

lemma ilog2_unique:
  assumes "0 < a" "2 powi e \<le> a" "a < 2 powi (e + 1)"
  shows "ilog2 a = e"
proof (rule ccontr)
  assume n: "ilog2 a \<noteq> e"
  have b: "2 powi (ilog2 a) \<le> a" "a < 2 powi (ilog2 a + 1)"
    using ilog2_bounds[OF assms(1)] by simp_all
  show False
  proof (cases "ilog2 a < e")
    case True
    then have "(2 :: rat) powi (ilog2 a + 1) \<le> 2 powi e" by (intro powi_2_mono) simp
    then show False using b(2) assms(2) by linarith
  next
    case False
    then have "e + 1 \<le> ilog2 a" using n by simp
    then have "(2 :: rat) powi (e + 1) \<le> 2 powi (ilog2 a)" by (rule powi_2_mono)
    then show False using b(1) assms(3) by linarith
  qed
qed

lemma ulp_scale: "(2 :: rat) powi e = 2 ^ 52 * 2 powi (e - 52)"
  using power_int_add[of "2 :: rat" 52 "e - 52"] by simp

text \<open>The relative error of one rounding is at most \<open>2\<^sup>-\<^sup>5\<^sup>3\<close>.\<close>

lemma fl64_error: "\<bar>fl64 x - x\<bar> \<le> \<bar>x\<bar> / 2 ^ 53"
proof (cases "x = 0")
  case True
  then show ?thesis by (simp add: fl64_def)
next
  case False
  define u where "u = (2 :: rat) powi (ilog2 \<bar>x\<bar> - 52)"
  have u: "0 < u" unfolding u_def by simp
  have f: "fl64 x = of_int (round_half_even (x / u)) * u"
    using False by (simp add: fl64_def u_def Let_def)
  have "2 powi (ilog2 \<bar>x\<bar>) \<le> \<bar>x\<bar>" using ilog2_bounds[of "\<bar>x\<bar>"] False by simp
  then have lo: "2 ^ 52 * u \<le> \<bar>x\<bar>" using ulp_scale[of "ilog2 \<bar>x\<bar>"] by (simp add: u_def)
  have "fl64 x - x = (of_int (round_half_even (x / u)) - x / u) * u"
    using u by (simp add: f left_diff_distrib)
  then have "\<bar>fl64 x - x\<bar> = \<bar>of_int (round_half_even (x / u)) - x / u\<bar> * u"
    using u by (simp add: abs_mult)
  also have "\<dots> \<le> 1 / 2 * u"
    using round_half_even_close[of "x / u"] u by (intro mult_right_mono) simp_all
  also have "\<dots> \<le> \<bar>x\<bar> / 2 ^ 53" using lo by simp
  finally show ?thesis .
qed

text \<open>A float is its own rounding.\<close>

lemma fl64_idem: "fl64 (fl64 x) = fl64 x"
proof (cases "x = 0")
  case True
  then show ?thesis by (simp add: fl64_def)
next
  case False
  define e where "e = ilog2 \<bar>x\<bar>"
  define u where "u = (2 :: rat) powi (e - 52)"
  define j where "j = round_half_even (x / u)"
  have u: "0 < u" unfolding u_def by simp
  have y: "fl64 x = of_int j * u"
    using False by (simp add: fl64_def u_def e_def j_def Let_def)
  have b: "2 powi e \<le> \<bar>x\<bar>" "\<bar>x\<bar> < 2 powi (e + 1)"
    using ilog2_bounds[of "\<bar>x\<bar>"] False by (simp_all add: e_def)
  have s0: "(2 :: rat) powi e = 2 ^ 52 * u" unfolding u_def by (rule ulp_scale)
  have s1: "(2 :: rat) powi (e + 1) = 2 ^ 53 * u" using s0 by (simp add: powi_2_Suc)
  have s2: "(2 :: rat) powi (e + 2) = 2 ^ 54 * u"
    using powi_2_Suc[of "e + 1"] s1 by (simp add: add.assoc)
  have bu: "2 ^ 52 * u \<le> \<bar>x\<bar>" "\<bar>x\<bar> < 2 ^ 53 * u"
    using b unfolding s0 s1 by simp_all
  have xu: "\<bar>x / u\<bar> = \<bar>x\<bar> / u" using u by simp
  have z: "2 ^ 52 \<le> \<bar>x / u\<bar>" "\<bar>x / u\<bar> < 2 ^ 53"
    unfolding xu using bu u by (simp_all add: pos_le_divide_eq pos_divide_less_eq)
  have jabs: "2 ^ 52 \<le> \<bar>j\<bar> \<and> \<bar>j\<bar> \<le> 2 ^ 53"
  proof (cases "0 \<le> x")
    case True
    then have p: "\<bar>x / u\<bar> = x / u" using u by simp
    have g: "(of_int (2 ^ 52) :: rat) \<le> x / u" "x / u \<le> (of_int (2 ^ 53) :: rat)"
      using z p by simp_all
    have "2 ^ 52 \<le> j" unfolding j_def by (rule round_half_even_ge[OF g(1)])
    moreover have "j \<le> 2 ^ 53" unfolding j_def by (rule round_half_even_le[OF g(2)])
    ultimately show ?thesis by simp
  next
    case False
    then have p: "\<bar>x / u\<bar> = - (x / u)" using u by (simp add: divide_less_0_iff)
    have g: "x / u \<le> (of_int (- (2 ^ 52)) :: rat)" "(of_int (- (2 ^ 53)) :: rat) \<le> x / u"
      using z p by simp_all
    have "j \<le> - (2 ^ 52)" unfolding j_def by (rule round_half_even_le[OF g(1)])
    moreover have "- (2 ^ 53) \<le> j" unfolding j_def by (rule round_half_even_ge[OF g(2)])
    ultimately show ?thesis by simp
  qed
  have j0: "j \<noteq> 0" using jabs by auto
  have y0: "fl64 x \<noteq> 0" using y j0 u by simp
  have ya: "\<bar>fl64 x\<bar> = of_int \<bar>j\<bar> * u" using u by (simp add: y abs_mult)
  show ?thesis
  proof (cases "\<bar>j\<bar> = 2 ^ 53")
    case True
    have yv: "\<bar>fl64 x\<bar> = 2 ^ 53 * u" using ya True by simp
    have "0 < \<bar>fl64 x\<bar>" "2 powi (e + 1) \<le> \<bar>fl64 x\<bar>" "\<bar>fl64 x\<bar> < 2 powi (e + 1 + 1)"
      unfolding yv s1 powi_2_Suc[of "e + 1"] using u by simp_all
    then have "ilog2 \<bar>fl64 x\<bar> = e + 1" by (rule ilog2_unique)
    then have f: "fl64 (fl64 x) = of_int (round_half_even (fl64 x / (2 * u))) * (2 * u)"
      using y0 powi_2_Suc[of "e - 52"] by (simp add: fl64_def Let_def u_def)
    have "j = 2 ^ 53 \<or> j = - (2 ^ 53)" using True by (simp add: abs_if split: if_splits)
    then have ev: "j = 2 * (j div 2)" by (rule disjE) simp_all
    have "fl64 x / (2 * u) = of_int (j div 2)"
    proof -
      have "fl64 x = of_int (2 * (j div 2)) * u" using y ev by simp
      then show ?thesis using u by simp
    qed
    then have "fl64 (fl64 x) = of_int (j div 2) * (2 * u)"
      using f by (simp add: round_half_even_of_int)
    also have "\<dots> = of_int (2 * (j div 2)) * u" by simp
    also have "\<dots> = fl64 x" using y ev by simp
    finally show ?thesis .
  next
    case False
    then have lt: "\<bar>j\<bar> < 2 ^ 53" using jabs by simp
    have "(of_int (2 ^ 52) :: rat) \<le> of_int \<bar>j\<bar>" "(of_int \<bar>j\<bar> :: rat) < of_int (2 ^ 53)"
      using jabs lt by (simp_all only: of_int_le_iff of_int_less_iff)
    then have "2 powi e \<le> \<bar>fl64 x\<bar>" "\<bar>fl64 x\<bar> < 2 powi (e + 1)"
      unfolding ya s0 s1 using u by simp_all
    moreover have "0 < \<bar>fl64 x\<bar>" using y0 by simp
    ultimately have "ilog2 \<bar>fl64 x\<bar> = e" by (intro ilog2_unique)
    then have "fl64 (fl64 x) = of_int (round_half_even (fl64 x / u)) * u"
      using y0 by (simp add: fl64_def Let_def u_def)
    also have "fl64 x / u = of_int j" using y u by simp
    finally show ?thesis by (simp add: round_half_even_of_int y)
  qed
qed

lemma py_round_fl64: "py_round (Fin (fl64 x)) ndigits = py_round (Fin x) ndigits"
  by (simp add: fl64_idem)

section \<open>The reduction computes the statistics of the valid pixels\<close>

lemma mask_nodata_eq:
  "mask_nodata nd a = map (map (\<lambda>p. if pixel_eq p nd then NaN else Fin (of_int p))) a"
proof -
  have row: "map (\<lambda>(c, p). if c then NaN else Fin (of_int p)) (zip (map (\<lambda>p. pixel_eq p nd) ps) ps) =
             map (\<lambda>p. if pixel_eq p nd then NaN else Fin (of_int p)) ps" for ps :: "int list"
    by (induction ps) simp_all
  have "map (\<lambda>(cs, ps). map (\<lambda>(c, p). if c then NaN else Fin (of_int p)) (zip cs ps))
          (zip (map (map (\<lambda>p. pixel_eq p nd)) a) a) =
        map (map (\<lambda>p. if pixel_eq p nd then NaN else Fin (of_int p))) a"
    by (induction a) (simp_all add: row)
  then show ?thesis by (simp add: mask_nodata_def np_where_def np_equal_def)
qed

lemma concat_mask_nodata:
  "concat (mask_nodata nd a) = map (\<lambda>p. if pixel_eq p nd then NaN else Fin (of_int p)) (concat a)"
  by (simp add: mask_nodata_eq map_concat)

lemma finite_values_mask:
  "finite_values (mask_nodata nd a) = map of_int (valid_pixels nd a)"
proof -
  have "concat (map (\<lambda>x. case x of NaN \<Rightarrow> [] | Fin v \<Rightarrow> [v])
          (map (\<lambda>p. if pixel_eq p nd then NaN else Fin (of_int p)) ps)) =
        map of_int (filter (\<lambda>p. \<not> pixel_eq p nd) ps)" for ps
    by (induction ps) simp_all
  then show ?thesis by (simp add: finite_values_def concat_mask_nodata valid_pixels_def)
qed

lemma all_nan_mask:
  "np_all (np_isnan (mask_nodata nd a)) \<longleftrightarrow> valid_pixels nd a = []"
proof -
  have "np_all (np_isnan (mask_nodata nd a)) \<longleftrightarrow> (\<forall>x\<in>set (concat (mask_nodata nd a)). x = NaN)"
    by (auto simp: np_all_def np_isnan_def list_all_iff)
  also have "\<dots> \<longleftrightarrow> (\<forall>p\<in>set (concat a). pixel_eq p nd)"
    unfolding concat_mask_nodata by auto
  also have "\<dots> \<longleftrightarrow> valid_pixels nd a = []"
    unfolding valid_pixels_def by (simp add: filter_empty_conv)
  finally show ?thesis .
qed

lemma fold_min_of_int:
  "fold min (map of_int xs) (of_int x :: rat) = of_int (Min (set (x # xs)))"
proof -
  have "fold min (map of_int xs) (of_int x :: rat) = Min (set (of_int x # map of_int xs))"
    by (simp only: Min.set_eq_fold)
  also have "\<dots> = Min (of_int ` set (x # xs))" by simp
  also have "\<dots> = of_int (Min (set (x # xs)))"
    by (rule mono_Min_commute[symmetric]) (auto simp: mono_def)
  finally show ?thesis .
qed

lemma fold_max_of_int:
  "fold max (map of_int xs) (of_int x :: rat) = of_int (Max (set (x # xs)))"
proof -
  have "fold max (map of_int xs) (of_int x :: rat) = Max (set (of_int x # map of_int xs))"
    by (simp only: Max.set_eq_fold)
  also have "\<dots> = Max (of_int ` set (x # xs))" by simp
  also have "\<dots> = of_int (Max (set (x # xs)))"
    by (rule mono_Max_commute[symmetric]) (auto simp: mono_def)
  finally show ?thesis .
qed

lemma valid_pixels_nonempty: "valid_pixels nd a \<noteq> [] \<Longrightarrow> concat a \<noteq> []"
  unfolding valid_pixels_def by (cases "concat a") simp_all

lemma nanmin_mask:
  assumes "valid_pixels nd a \<noteq> []"
  shows "np_nanmin (mask_nodata nd a) = Inr (Fin (of_int (Min (set (valid_pixels nd a)))))"
proof -
  obtain x xs where v: "valid_pixels nd a = x # xs" using assms by (cases "valid_pixels nd a") auto
  have ne: "concat (mask_nodata nd a) \<noteq> []"
    using valid_pixels_nonempty[OF assms] by (simp add: concat_mask_nodata)
  show ?thesis
    using ne by (simp add: np_nanmin_def finite_values_mask v fold_min_of_int del: Min_insert)
qed

lemma nanmax_mask:
  assumes "valid_pixels nd a \<noteq> []"
  shows "np_nanmax (mask_nodata nd a) = Inr (Fin (of_int (Max (set (valid_pixels nd a)))))"
proof -
  obtain x xs where v: "valid_pixels nd a = x # xs" using assms by (cases "valid_pixels nd a") auto
  have ne: "concat (mask_nodata nd a) \<noteq> []"
    using valid_pixels_nonempty[OF assms] by (simp add: concat_mask_nodata)
  show ?thesis
    using ne by (simp add: np_nanmax_def finite_values_mask v fold_max_of_int del: Max_insert)
qed

lemma nanmean_mask:
  assumes "valid_pixels nd a \<noteq> []"
  shows "np_nanmean (mask_nodata nd a) = Fin (fl64 (mean_of (valid_pixels nd a)))"
proof -
  obtain x xs where v: "valid_pixels nd a = x # xs" using assms by (cases "valid_pixels nd a") auto
  have "sum_list (map of_int (x # xs)) = (of_int (sum_list (x # xs)) :: rat)"
    by (rule sum_list_of_int)
  then show ?thesis
    by (simp add: np_nanmean_def finite_values_mask v mean_of_def)
qed

text \<open>
  The code of the script refines the reduction of the specification, and never raises.
\<close>

lemma window_stats_reduce: "window_stats nd a = Inr (reduce a nd)"
proof (cases "valid_pixels nd a = []")
  case True
  then show ?thesis by (simp add: window_stats_def reduce_def all_nan_mask)
next
  case False
  then show ?thesis
    by (simp add: window_stats_def reduce_def all_nan_mask nanmin_mask nanmax_mask nanmean_mask
        Let_def py_round_fl64 del: py_round.simps)
qed

lemma py_round_2_value:
  "py_round (Fin m) 2 = Fin (fl64 (of_int (round_half_even (fl64 (fl64 m * 100))) / 100))"
  by simp

lemma rint_scaled_close:
  "\<bar>of_int (round_half_even (fl64 (fl64 m * 100))) - 100 * m\<bar> \<le> 1 / 2 + 300 * \<bar>m\<bar> / 2 ^ 53"
proof -
  define x1 where "x1 = fl64 m"
  define y where "y = fl64 (x1 * 100)"
  have e1: "\<bar>x1 - m\<bar> \<le> \<bar>m\<bar> / 2 ^ 53" unfolding x1_def by (rule fl64_error)
  have "\<bar>x1\<bar> \<le> \<bar>m\<bar> + \<bar>x1 - m\<bar>" by simp
  also have "\<dots> \<le> \<bar>m\<bar> + \<bar>m\<bar> / 2 ^ 53" using e1 by simp
  also have "\<dots> \<le> 2 * \<bar>m\<bar>" by simp
  finally have x1b: "\<bar>x1\<bar> \<le> 2 * \<bar>m\<bar>" .
  have "\<bar>y - x1 * 100\<bar> \<le> \<bar>x1 * 100\<bar> / 2 ^ 53" unfolding y_def by (rule fl64_error)
  also have "\<dots> = 100 * \<bar>x1\<bar> / 2 ^ 53" by (simp add: abs_mult)
  also have "\<dots> \<le> 100 * (2 * \<bar>m\<bar>) / 2 ^ 53"
    using x1b by (intro divide_right_mono mult_left_mono) simp_all
  finally have e2: "\<bar>y - x1 * 100\<bar> \<le> 200 * \<bar>m\<bar> / 2 ^ 53" by simp
  have e3: "\<bar>of_int (round_half_even y) - y\<bar> \<le> 1 / 2" by (rule round_half_even_close)
  have "\<bar>of_int (round_half_even y) - 100 * m\<bar> \<le>
        \<bar>of_int (round_half_even y) - y\<bar> + \<bar>y - x1 * 100\<bar> + 100 * \<bar>x1 - m\<bar>"
    by (simp add: abs_if split: if_splits)
  also have "\<dots> \<le> 1 / 2 + 200 * \<bar>m\<bar> / 2 ^ 53 + 100 * (\<bar>m\<bar> / 2 ^ 53)"
    using e1 e2 e3 by (intro add_mono mult_left_mono) simp_all
  also have "\<dots> = 1 / 2 + 300 * \<bar>m\<bar> / 2 ^ 53" by simp
  finally show ?thesis by (simp add: y_def x1_def)
qed

text \<open>
  For pixel sums below \<open>2\<^sup>5\<^sup>3 / 600\<close> the float operations of the rounding do not move
  the result away from a nearest hundredth of the exact mean.
\<close>

lemma nearest_hundredth:
  assumes n: "xs \<noteq> []" and small: "600 * \<bar>sum_list xs\<bar> < 2 ^ 53"
    and close: "\<bar>of_int k - 100 * mean_of xs\<bar> \<le> 1 / 2 + 300 * \<bar>mean_of xs\<bar> / 2 ^ 53"
  shows "\<bar>of_int k - 100 * mean_of xs\<bar> \<le> 1 / 2"
proof (rule ccontr)
  assume "\<not> ?thesis"
  then have far: "1 / 2 < \<bar>of_int k - 100 * mean_of xs\<bar>" by simp
  define l where "l = int (length xs)"
  define S where "S = sum_list xs"
  define D where "D = 2 * l * k - 200 * S"
  have l: "0 < l" using n by (simp add: l_def)
  have m: "mean_of xs = of_int S / of_int l" by (simp add: mean_of_def S_def l_def)
  have dd: "(of_int D :: rat) = 2 * of_int l * (of_int k - 100 * mean_of xs)"
    using l by (simp add: D_def m field_simps)
  have "\<bar>of_int D :: rat\<bar> = 2 * of_int l * \<bar>of_int k - 100 * mean_of xs\<bar>"
    unfolding dd using l by (simp add: abs_mult)
  then have da: "\<bar>of_int k - 100 * mean_of xs\<bar> = \<bar>of_int D :: rat\<bar> / (2 * of_int l)"
    using l by simp
  have "(of_int l :: rat) < \<bar>of_int D\<bar>"
    using far l unfolding da by (simp add: pos_less_divide_eq)
  then have "(of_int l :: rat) < of_int \<bar>D\<bar>" by simp
  then have "l < \<bar>D\<bar>" by (simp only: of_int_less_iff)
  then have "l + 1 \<le> \<bar>D\<bar>" by simp
  then have "(of_int (l + 1) :: rat) \<le> of_int \<bar>D\<bar>" by (simp only: of_int_le_iff)
  then have big: "(of_int l :: rat) + 1 \<le> \<bar>of_int D\<bar>" by simp
  have ma: "\<bar>mean_of xs\<bar> = of_int \<bar>S\<bar> / of_int l" using l by (simp add: m)
  have "\<bar>of_int D :: rat\<bar> = 2 * of_int l * \<bar>of_int k - 100 * mean_of xs\<bar>"
    unfolding dd using l by (simp add: abs_mult)
  also have "\<dots> \<le> 2 * of_int l * (1 / 2 + 300 * \<bar>mean_of xs\<bar> / 2 ^ 53)"
    using close l by (intro mult_left_mono) simp_all
  also have "\<dots> = of_int l + 600 * of_int \<bar>S\<bar> / 2 ^ 53"
    using l by (simp add: ma field_simps)
  finally have "(1 :: rat) \<le> 600 * of_int \<bar>S\<bar> / 2 ^ 53" using big by simp
  then have "(2 :: rat) ^ 53 \<le> 600 * of_int \<bar>S\<bar>" by simp
  then have "(of_int (2 ^ 53) :: rat) \<le> of_int (600 * \<bar>S\<bar>)" by simp
  then have "2 ^ 53 \<le> 600 * \<bar>S\<bar>" by (simp only: of_int_le_iff)
  then show False using small by (simp add: S_def)
qed

lemma valid_pixels_ex: "valid_pixels nd a \<noteq> [] \<longleftrightarrow> (\<exists>p\<in>set (concat a). \<not> pixel_eq p nd)"
  unfolding valid_pixels_def by (simp add: filter_empty_conv)

lemma valid_pixels_None: "valid_pixels None a = concat a"
  by (simp add: valid_pixels_def)

lemma reduce_valid:
  "valid_pixels nd a \<noteq> [] \<Longrightarrow>
   reduce a nd = (Some (Fin (of_int (Min (set (valid_pixels nd a))))),
                  Some (Fin (of_int (Max (set (valid_pixels nd a))))),
                  Some (py_round (Fin (mean_of (valid_pixels nd a))) 2))"
  by (simp add: reduce_def Let_def del: py_round.simps)

lemma reduce_empty: "valid_pixels nd a = [] \<Longrightarrow> reduce a nd = (None, None, None)"
  by (simp add: reduce_def)

lemma inspect_stats_valid:
  "valid_pixels nd a \<noteq> [] \<Longrightarrow>
   inspect_stats nd a = Inr (Fin (of_int (Min (set (valid_pixels nd a)))),
                             Fin (of_int (Max (set (valid_pixels nd a)))),
                             py_round (Fin (mean_of (valid_pixels nd a))) 2)"
  by (simp add: inspect_stats_def nanmin_mask nanmax_mask nanmean_mask py_round_fl64
      del: py_round.simps)

declare str_nat.simps [simp del] str_float.simps(2) [simp del]

lemma frac_digits_zero: "frac_digits k 0 = []"
  by (cases k) simp_all

text \<open>An integer-valued float is written with a point and one zero.\<close>

lemma str_float_of_int: "str_float (Fin (of_int m)) = str_int m @ ''.0''"
proof -
  have a: "\<bar>of_int m :: rat\<bar> = of_int \<bar>m\<bar>" by simp
  show ?thesis
    unfolding str_float.simps a Let_def
    by (simp add: frac_digits_zero str_int_def)
qed

section \<open>Properties of the reduction\<close>

text \<open>
  Claim C5. For a window array with at least one pixel that is not equal to the nodata
  value, the script computes the minimum and the maximum of the pixels that are not
  nodata, unrounded, and their arithmetic mean rounded to two decimal places: the mean
  it records is the float nearest to a hundredth \<open>k / 100\<close>, and that hundredth is
  within half a hundredth of the exact mean of the pixels that are not nodata whenever
  600 times their sum is below \<open>2\<^sup>5\<^sup>3\<close> (a window of the recorded raster stays far below),
  and within half a hundredth and three roundings of the mean in any case. The nodata
  pixels enter none of the three.
\<close>

theorem window_stats_ignores_nodata:
  assumes "\<exists>p\<in>set (concat array). \<not> pixel_eq p nodata_value"
  shows "\<exists>k. window_stats nodata_value array =
           Inr (Some (Fin (of_int (Min (set (valid_pixels nodata_value array))))),
                Some (Fin (of_int (Max (set (valid_pixels nodata_value array))))),
                Some (Fin (fl64 (of_int k / 100)))) \<and>
           \<bar>of_int k / 100 - mean_of (valid_pixels nodata_value array)\<bar>
             \<le> 1 / 200 + 3 * \<bar>mean_of (valid_pixels nodata_value array)\<bar> / 2 ^ 53 \<and>
           (600 * \<bar>sum_list (valid_pixels nodata_value array)\<bar> < 2 ^ 53 \<longrightarrow>
              \<bar>of_int k / 100 - mean_of (valid_pixels nodata_value array)\<bar> \<le> 1 / 200)"
proof -
  let ?v = "valid_pixels nodata_value array"
  let ?k = "round_half_even (fl64 (fl64 (mean_of ?v) * 100))"
  have v: "?v \<noteq> []" using assms by (simp add: valid_pixels_ex)
  have w: "window_stats nodata_value array =
           Inr (Some (Fin (of_int (Min (set ?v)))), Some (Fin (of_int (Max (set ?v)))),
                Some (Fin (fl64 (of_int ?k / 100))))"
    by (simp add: window_stats_reduce reduce_valid[OF v])
  have c: "\<bar>of_int ?k - 100 * mean_of ?v\<bar> \<le> 1 / 2 + 300 * \<bar>mean_of ?v\<bar> / 2 ^ 53"
    by (rule rint_scaled_close)
  have h: "\<bar>of_int ?k / 100 - mean_of ?v\<bar> = \<bar>of_int ?k - 100 * mean_of ?v\<bar> / 100"
  proof -
    have "of_int ?k / 100 - mean_of ?v = (of_int ?k - 100 * mean_of ?v) / 100" by simp
    then show ?thesis by (simp only: abs_divide abs_numeral)
  qed
  have c1: "\<bar>of_int ?k / 100 - mean_of ?v\<bar> \<le> 1 / 200 + 3 * \<bar>mean_of ?v\<bar> / 2 ^ 53"
    unfolding h using c by simp
  have c2: "\<bar>of_int ?k / 100 - mean_of ?v\<bar> \<le> 1 / 200" if "600 * \<bar>sum_list ?v\<bar> < 2 ^ 53"
    unfolding h using nearest_hundredth[OF v that c] by simp
  show ?thesis using w c1 c2 by blast
qed

text \<open>
  The theorem at a window of 23 pixels 1, 17 pixels 0 and one nodata pixel, whose mean
  0.575 is not a float and is recorded as 0.57, and at the example of the specification,
  pixels 255, 255, 0, 100.
\<close>

theorem window_stats_ignores_nodata_witness:
  "(\<exists>k. window_stats (Some (Fin 255)) [replicate 23 1 @ replicate 17 0 @ [255]] =
           Inr (Some (Fin (of_int (Min (set (valid_pixels (Some (Fin 255))
                        [replicate 23 1 @ replicate 17 0 @ [255]]))))),
                Some (Fin (of_int (Max (set (valid_pixels (Some (Fin 255))
                        [replicate 23 1 @ replicate 17 0 @ [255]]))))),
                Some (Fin (fl64 (of_int k / 100)))) \<and>
           \<bar>of_int k / 100 -
              mean_of (valid_pixels (Some (Fin 255)) [replicate 23 1 @ replicate 17 0 @ [255]])\<bar>
             \<le> 1 / 200 + 3 * \<bar>mean_of (valid_pixels (Some (Fin 255))
                        [replicate 23 1 @ replicate 17 0 @ [255]])\<bar> / 2 ^ 53 \<and>
           (600 * \<bar>sum_list (valid_pixels (Some (Fin 255))
                        [replicate 23 1 @ replicate 17 0 @ [255]])\<bar> < 2 ^ 53 \<longrightarrow>
              \<bar>of_int k / 100 -
                 mean_of (valid_pixels (Some (Fin 255)) [replicate 23 1 @ replicate 17 0 @ [255]])\<bar>
                \<le> 1 / 200)) \<and>
   mean_of (valid_pixels (Some (Fin 255)) [replicate 23 1 @ replicate 17 0 @ [255]]) = 23 / 40 \<and>
   window_stats (Some (Fin 255)) [replicate 23 1 @ replicate 17 0 @ [255]] =
     Inr (Some (Fin 0), Some (Fin 1), Some (Fin (fl64 (57 / 100)))) \<and>
   str_value (Some (Fin (fl64 (57 / 100)))) = ''0.57'' \<and>
   window_stats (Some (Fin 255)) [[255, 255], [0, 100]] =
     Inr (Some (Fin 0), Some (Fin 100), Some (Fin 50))"
proof -
  let ?a = "[replicate 23 1 @ replicate 17 0 @ [255 :: int]]"
  have h: "\<exists>p\<in>set (concat ?a). \<not> pixel_eq p (Some (Fin 255))" by simp
  have m: "mean_of (valid_pixels (Some (Fin 255)) ?a) = 23 / 40" by code_simp
  have e: "window_stats (Some (Fin 255)) ?a =
     Inr (Some (Fin 0), Some (Fin 1), Some (Fin (fl64 (57 / 100))))"
    by code_simp
  have s: "str_value (Some (Fin (fl64 (57 / 100)))) = ''0.57''" by code_simp
  have x: "window_stats (Some (Fin 255)) [[255, 255], [0, 100]] =
     Inr (Some (Fin 0), Some (Fin 100), Some (Fin 50))"
    by code_simp
  show ?thesis
    by (intro conjI window_stats_ignores_nodata[OF h] m e s x)
qed

text \<open>
  Claim C6. For a window array in which every pixel equals the nodata value, the script
  takes all three statistics as \<^verbatim>\<open>None\<close> and raises nothing.
\<close>

theorem window_stats_all_nodata:
  assumes "\<forall>p\<in>set (concat array). pixel_eq p nodata_value"
  shows "window_stats nodata_value array = Inr (None, None, None)"
proof -
  have "valid_pixels nodata_value array = []" using assms valid_pixels_ex by blast
  then show ?thesis by (simp add: window_stats_reduce reduce_empty)
qed

text \<open>The theorem at a window of four nodata pixels.\<close>

theorem window_stats_all_nodata_witness:
  "window_stats (Some (Fin 255)) [[255, 255], [255, 255]] = Inr (None, None, None)"
  by (rule window_stats_all_nodata) simp

text \<open>
  Claim C9. When \<^verbatim>\<open>dataset.nodata\<close> is \<^verbatim>\<open>None\<close>, the comparison matches no pixel and the
  mask changes none: for a window array that is not empty, minimum, maximum and mean are
  those of all the pixels, and the branch of the absent result is not taken. The
  inspection script prints the same three values.
\<close>

theorem window_stats_nodata_absent:
  assumes "concat array \<noteq> []"
  shows "np_equal array None = map (map (\<lambda>p. False)) array \<and>
         mask_nodata None array = map (map (\<lambda>p. Fin (of_int p))) array \<and>
         window_stats None array =
           Inr (Some (Fin (of_int (Min (set (concat array))))),
                Some (Fin (of_int (Max (set (concat array))))),
                Some (py_round (Fin (mean_of (concat array))) 2)) \<and>
         window_stats None array \<noteq> Inr (None, None, None) \<and>
         inspect_stats None array =
           Inr (Fin (of_int (Min (set (concat array)))),
                Fin (of_int (Max (set (concat array)))),
                py_round (Fin (mean_of (concat array))) 2)"
proof -
  have v: "valid_pixels None array \<noteq> []" using assms by (simp add: valid_pixels_None)
  have 1: "np_equal array None = map (map (\<lambda>p. False)) array" by (simp add: np_equal_def)
  have 2: "mask_nodata None array = map (map (\<lambda>p. Fin (of_int p))) array"
    by (simp add: mask_nodata_eq)
  have 3: "window_stats None array =
           Inr (Some (Fin (of_int (Min (set (concat array))))),
                Some (Fin (of_int (Max (set (concat array))))),
                Some (py_round (Fin (mean_of (concat array))) 2))"
    using reduce_valid[OF v]
    by (simp add: window_stats_reduce valid_pixels_None del: py_round.simps)
  have 4: "window_stats None array \<noteq> Inr (None, None, None)" unfolding 3 by simp
  have 5: "inspect_stats None array =
           Inr (Fin (of_int (Min (set (concat array)))),
                Fin (of_int (Max (set (concat array)))),
                py_round (Fin (mean_of (concat array))) 2)"
    using inspect_stats_valid[OF v] by (simp add: valid_pixels_None del: py_round.simps)
  show ?thesis using 1 2 3 4 5 by blast
qed

text \<open>The theorem at a window whose pixel 255 is then an ordinary value.\<close>

theorem window_stats_nodata_absent_witness:
  "window_stats None [[255, 255], [0, 101]] =
     Inr (Some (Fin 0), Some (Fin 255), Some (Fin (611 / 4))) \<and>
   inspect_stats None [[255, 255], [0, 101]] = Inr (Fin 0, Fin 255, Fin (611 / 4))"
proof -
  have h: "concat [[255, 255], [0, 101 :: int]] \<noteq> []" by simp
  have r: "py_round (Fin (mean_of (concat [[255, 255], [0, 101]]))) 2 = Fin (611 / 4)"
    by code_simp
  show ?thesis
    using window_stats_nodata_absent[OF h] unfolding r by simp
qed

text \<open>
  Claim C10. The mask makes a new array of floats, every pixel that is kept being
  converted, so the minimum and the maximum that the script writes are floats: the text
  of each is the integer followed by \<^verbatim>\<open>.0\<close>, not the text of the integer pixel.
\<close>

theorem masked_statistics_are_floats:
  "mask_nodata nodata_value array =
     map (map (\<lambda>p. if pixel_eq p nodata_value then NaN else Fin (of_int p))) array \<and>
   (valid_pixels nodata_value array \<noteq> [] \<longrightarrow>
      (\<exists>avg_cover.
         window_stats nodata_value array =
           Inr (Some (Fin (of_int (Min (set (valid_pixels nodata_value array))))),
                Some (Fin (of_int (Max (set (valid_pixels nodata_value array))))),
                avg_cover) \<and>
         csv_line id'
           (Some (Fin (of_int (Min (set (valid_pixels nodata_value array))))),
            Some (Fin (of_int (Max (set (valid_pixels nodata_value array))))),
            avg_cover) =
           ''array_'' @ str_int id' @ '','' @
           str_int (Min (set (valid_pixels nodata_value array))) @ ''.0'' @ '','' @
           str_int (Max (set (valid_pixels nodata_value array))) @ ''.0'' @ '','' @
           str_value avg_cover @ [CHR 0x0A] \<and>
         str_value (Some (Fin (of_int (Min (set (valid_pixels nodata_value array)))))) \<noteq>
           str_int (Min (set (valid_pixels nodata_value array))) \<and>
         str_value (Some (Fin (of_int (Max (set (valid_pixels nodata_value array)))))) \<noteq>
           str_int (Max (set (valid_pixels nodata_value array)))))"
proof (intro conjI impI)
  show "mask_nodata nodata_value array =
     map (map (\<lambda>p. if pixel_eq p nodata_value then NaN else Fin (of_int p))) array"
    by (rule mask_nodata_eq)
next
  assume v: "valid_pixels nodata_value array \<noteq> []"
  show "\<exists>avg_cover.
         window_stats nodata_value array =
           Inr (Some (Fin (of_int (Min (set (valid_pixels nodata_value array))))),
                Some (Fin (of_int (Max (set (valid_pixels nodata_value array))))),
                avg_cover) \<and>
         csv_line id'
           (Some (Fin (of_int (Min (set (valid_pixels nodata_value array))))),
            Some (Fin (of_int (Max (set (valid_pixels nodata_value array))))),
            avg_cover) =
           ''array_'' @ str_int id' @ '','' @
           str_int (Min (set (valid_pixels nodata_value array))) @ ''.0'' @ '','' @
           str_int (Max (set (valid_pixels nodata_value array))) @ ''.0'' @ '','' @
           str_value avg_cover @ [CHR 0x0A] \<and>
         str_value (Some (Fin (of_int (Min (set (valid_pixels nodata_value array)))))) \<noteq>
           str_int (Min (set (valid_pixels nodata_value array))) \<and>
         str_value (Some (Fin (of_int (Max (set (valid_pixels nodata_value array)))))) \<noteq>
           str_int (Max (set (valid_pixels nodata_value array)))"
    by (simp add: window_stats_reduce reduce_valid[OF v] csv_line_def str_float_of_int
        del: py_round.simps)
qed

text \<open>The theorem at a window with the pixels 0 and 255: the minimum is written 0.0.\<close>

theorem masked_statistics_are_floats_witness:
  "mask_nodata (Some (Fin 255)) [[0, 255]] = [[Fin 0, NaN]] \<and>
   window_stats (Some (Fin 255)) [[0, 255]] = Inr (Some (Fin 0), Some (Fin 0), Some (Fin 0)) \<and>
   csv_line 1 (Some (Fin 0), Some (Fin 0), Some (Fin 0)) = ''array_1,0.0,0.0,0.0'' @ [CHR 0x0A]"
proof -
  have v: "valid_pixels (Some (Fin 255)) [[0, 255]] = [0]"
    by (simp add: valid_pixels_def)
  have s: "str_int 0 = ''0''" "str_int 1 = ''1''"
    by (simp_all add: str_int_def str_nat.simps digit_char_def)
  have w: "window_stats (Some (Fin 255)) [[0, 255]] = Inr (Some (Fin 0), Some (Fin 0), Some (Fin 0))"
    by code_simp
  have f: "str_float (Fin 0) = ''0.0''"
    using str_float_of_int[of 0] by (simp add: s)
  show ?thesis
    using masked_statistics_are_floats[of "Some (Fin 255)" "[[0, 255]]" 1]
    by (simp add: v s w f)
qed

section \<open>Properties of the CSV file\<close>

lemma length_read_outcomes: "length (read_outcomes read s ws) = length ws"
  by (induction ws arbitrary: s) (simp_all split: prod.splits)

lemma length_successes: "length (successes rs) + failures rs = length rs"
  by (induction rs rule: successes.induct) simp_all

lemma length_csv_rows: "length (csv_rows k sts) = length sts"
  by (induction sts arbitrary: k) simp_all

lemma nth_csv_rows: "i < length sts \<Longrightarrow> csv_rows k sts ! i = csv_line (k + int i) (sts ! i)"
proof (induction sts arbitrary: k i)
  case Nil
  then show ?case by simp
next
  case (Cons st sts)
  show ?case
  proof (cases i)
    case 0
    then show ?thesis by simp
  next
    case (Suc j)
    then have "j < length sts" using Cons.prems by simp
    then have "csv_rows (k + 1) sts ! j = csv_line (k + 1 + int j) (sts ! j)"
      by (rule Cons.IH)
    then show ?thesis using Suc by (simp add: add.assoc)
  qed
qed

lemma csv_rows_map:
  "csv_rows k sts = map (\<lambda>i. csv_line (k + int i) (sts ! i)) [0..<length sts]"
  by (rule nth_equalityI) (simp_all add: length_csv_rows nth_csv_rows)

text \<open>
  The loop writes one line for each read that succeeded, in order, numbered from the
  starting value of the counter, and leaves the counter at that value plus the number of
  lines.
\<close>

lemma windows_loop_rows:
  "\<exists>s'. windows_loop read nd ws s k out =
     Inr (s', k + int (length (successes (read_outcomes read s ws))),
          out @ concat (csv_rows k (map (\<lambda>a. reduce a nd) (successes (read_outcomes read s ws)))))"
proof (induction ws arbitrary: s k out)
  case Nil
  then show ?case by simp
next
  case (Cons wind ws)
  obtain r s1 where r: "read s wind = (r, s1)" by (cases "read s wind")
  show ?case
  proof (cases r)
    case (Inl e)
    then show ?thesis using Cons.IH[of s1 k out] r by simp
  next
    case (Inr array)
    obtain s' where
      "windows_loop read nd ws s1 (k + 1) (out @ csv_line k (reduce array nd)) =
         Inr (s', k + 1 + int (length (successes (read_outcomes read s1 ws))),
              (out @ csv_line k (reduce array nd)) @
              concat (csv_rows (k + 1) (map (\<lambda>a. reduce a nd) (successes (read_outcomes read s1 ws)))))"
      using Cons.IH[of s1 "k + 1" "out @ csv_line k (reduce array nd)"] by blast
    then show ?thesis using r Inr by (simp add: window_stats_reduce)
  qed
qed

text \<open>
  The text of a natural number is its decimal numeral: digits only, no leading zero,
  and the number as its value.
\<close>

lemma digit_cases:
  assumes "d < 10"
  shows "d = 0 \<or> d = 1 \<or> d = 2 \<or> d = 3 \<or> d = 4 \<or> d = 5 \<or> d = 6 \<or> d = 7 \<or> d = 8 \<or>
         d = (9 :: nat)"
  using assms by presburger

lemma digit_char_mem:
  assumes "d < 10"
  shows "is_digit (digit_char d)"
  using digit_cases[OF assms] by (elim disjE) (simp_all add: digit_char_def is_digit_def)

lemma digit_char_val:
  assumes "d < 10"
  shows "(of_char (digit_char d) :: nat) = 48 + d"
  using digit_cases[OF assms] by (elim disjE) (simp_all add: digit_char_def)

lemma digit_char_zero:
  assumes "d < 10"
  shows "digit_char d = CHR ''0'' \<longleftrightarrow> d = 0"
  using digit_cases[OF assms] by (elim disjE) (simp_all add: digit_char_def)

lemma dec_value_snoc: "dec_value (cs @ [c]) = 10 * dec_value cs + (of_char c - 48)"
  by (simp add: dec_value_def)

lemma str_nat_decimal:
  "str_nat n \<noteq> [] \<and> list_all is_digit (str_nat n) \<and> dec_value (str_nat n) = n \<and>
   (0 < n \<longrightarrow> hd (str_nat n) \<noteq> CHR ''0'')"
proof (induction n rule: str_nat.induct)
  case (1 n)
  show ?case
  proof (cases "n < 10")
    case True
    have s: "str_nat n = [digit_char n]" using True by (subst str_nat.simps) simp
    have m: "list_all is_digit (str_nat n)"
      unfolding s using digit_char_mem[OF True] by simp
    have v: "dec_value (str_nat n) = n"
      unfolding s by (simp add: dec_value_def digit_char_val[OF True])
    have h: "0 < n \<longrightarrow> hd (str_nat n) \<noteq> CHR ''0''"
      unfolding s by (simp add: digit_char_zero[OF True])
    show ?thesis using m v h s by simp
  next
    case False
    have s: "str_nat n = str_nat (n div 10) @ [digit_char (n mod 10)]"
      using False by (subst str_nat.simps) simp
    have d: "n mod 10 < 10" by simp
    have q: "0 < n div 10" using False by simp
    have ih: "str_nat (n div 10) \<noteq> []" "list_all is_digit (str_nat (n div 10))"
      "dec_value (str_nat (n div 10)) = n div 10" "hd (str_nat (n div 10)) \<noteq> CHR ''0''"
      using 1[OF False] q by simp_all
    have v: "dec_value (str_nat n) = n"
      unfolding s dec_value_snoc ih(3) by (simp add: digit_char_val[OF d])
    have h: "hd (str_nat n) = hd (str_nat (n div 10))" unfolding s using ih(1) by simp
    have m: "list_all is_digit (str_nat n)"
      unfolding s using ih(2) digit_char_mem[OF d] by simp
    have ne: "str_nat n \<noteq> []" unfolding s by simp
    show ?thesis using v h m ih(4) ne by simp
  qed
qed

lemma str_int_id:
  "list_all is_digit (str_int (int k + 1)) \<and>
   hd (str_int (int k + 1)) \<noteq> CHR ''0'' \<and> dec_value (str_int (int k + 1)) = k + 1"
proof -
  have "str_int (int k + 1) = str_nat (k + 1)" by (simp add: str_int_def nat_add_distrib)
  then show ?thesis using str_nat_decimal[of "k + 1"] by simp
qed

text \<open>
  When the grid cannot be built the script stops with the error of \<^verbatim>\<open>create_windows\<close>,
  before the file is opened.
\<close>

lemma stats_script_raises:
  "create_windows ds 8 8 = Inl e \<Longrightarrow> stats_script read ds s = Inl e"
  by (simp add: stats_script_def)

text \<open>
  Claim C7. A window whose read raises gets no line, and the loop goes on with the next
  window: the lines are those of the reads that succeeded, in order, the \<open>k\<close>-th of
  them (from 0) carrying the id \<open>k + 1\<close>, and the counter ends at one more than
  their number. Their number is the number of windows less the number of failed reads;
  with exactly one failed read among \<open>N\<close> windows there are \<open>N - 1\<close> lines, with the ids
  1 to \<open>N - 1\<close>.
\<close>

theorem read_failure_skips_window:
  "\<exists>s' sts.
     map (window_stats nodata_value) (successes (read_outcomes read s windows)) = map Inr sts \<and>
     windows_loop read nodata_value windows s 1 file =
       Inr (s', 1 + int (length sts),
            file @ concat (map (\<lambda>k. csv_line (int k + 1) (sts ! k)) [0..<length sts])) \<and>
     length sts = length windows - failures (read_outcomes read s windows) \<and>
     (failures (read_outcomes read s windows) = 1 \<longrightarrow> length sts = length windows - 1)"
proof -
  let ?succ = "successes (read_outcomes read s windows)"
  let ?sts = "map (\<lambda>a. reduce a nodata_value) ?succ"
  obtain s' where l: "windows_loop read nodata_value windows s 1 file =
     Inr (s', 1 + int (length ?succ), file @ concat (csv_rows 1 ?sts))"
    using windows_loop_rows[of read nodata_value windows s 1 "file"] by blast
  have a: "map (window_stats nodata_value) ?succ = map Inr ?sts"
    by (simp add: window_stats_reduce)
  have b: "csv_rows 1 ?sts = map (\<lambda>k. csv_line (int k + 1) (?sts ! k)) [0..<length ?sts]"
    by (simp add: csv_rows_map add.commute)
  have c: "length ?sts = length windows - failures (read_outcomes read s windows)"
    using length_successes[of "read_outcomes read s windows"]
    by (simp add: length_read_outcomes)
  show ?thesis
    by (intro exI[of _ s'] exI[of _ ?sts] conjI impI a)
       (use l b c in simp_all)
qed

text \<open>The theorem at three windows whose second read fails.\<close>

theorem read_failure_skips_window_witness:
  "(\<exists>s' sts.
     map (window_stats (Some (Fin 255)))
       (successes (read_outcomes
          (\<lambda>s w. (if s = (1 :: nat) then Inl ReadError else Inr [[0, 255]], s + 1)) 0
          [\<lparr>col_off = 0, row_off = 0, width = 2, height = 1\<rparr>,
           \<lparr>col_off = 2, row_off = 0, width = 2, height = 1\<rparr>,
           \<lparr>col_off = 4, row_off = 0, width = 2, height = 1\<rparr>])) = map Inr sts \<and>
     windows_loop (\<lambda>s w. (if s = (1 :: nat) then Inl ReadError else Inr [[0, 255]], s + 1))
       (Some (Fin 255))
       [\<lparr>col_off = 0, row_off = 0, width = 2, height = 1\<rparr>,
        \<lparr>col_off = 2, row_off = 0, width = 2, height = 1\<rparr>,
        \<lparr>col_off = 4, row_off = 0, width = 2, height = 1\<rparr>] 0 1 ''h'' =
       Inr (s', 1 + int (length sts),
            ''h'' @ concat (map (\<lambda>k. csv_line (int k + 1) (sts ! k)) [0..<length sts])) \<and>
     length sts = 2) \<and>
   windows_loop (\<lambda>s w. (if s = (1 :: nat) then Inl ReadError else Inr [[0, 255]], s + 1))
       (Some (Fin 255))
       [\<lparr>col_off = 0, row_off = 0, width = 2, height = 1\<rparr>,
        \<lparr>col_off = 2, row_off = 0, width = 2, height = 1\<rparr>,
        \<lparr>col_off = 4, row_off = 0, width = 2, height = 1\<rparr>] 0 1 ''h'' =
     Inr (3, 3, ''h'' @ ''array_1,0.0,0.0,0.0'' @ [CHR 0x0A] @ ''array_2,0.0,0.0,0.0'' @ [CHR 0x0A])"
proof -
  let ?read = "\<lambda>s w. (if s = (1 :: nat) then Inl ReadError else Inr [[0, 255 :: int]], s + 1)"
  let ?ws = "[\<lparr>col_off = 0, row_off = 0, width = 2, height = 1\<rparr>,
        \<lparr>col_off = 2, row_off = 0, width = 2, height = 1\<rparr>,
        \<lparr>col_off = 4, row_off = 0, width = 2, height = 1\<rparr>]"
  have f: "failures (read_outcomes ?read 0 ?ws) = 1" by simp
  have e: "windows_loop ?read (Some (Fin 255)) ?ws 0 1 ''h'' =
     Inr (3, 3, ''h'' @ ''array_1,0.0,0.0,0.0'' @ [CHR 0x0A] @ ''array_2,0.0,0.0,0.0'' @ [CHR 0x0A])"
    by code_simp
  obtain s' sts where
    1: "map (window_stats (Some (Fin 255))) (successes (read_outcomes ?read 0 ?ws)) = map Inr sts"
    and 2: "windows_loop ?read (Some (Fin 255)) ?ws 0 1 ''h'' =
       Inr (s', 1 + int (length sts),
            ''h'' @ concat (map (\<lambda>k. csv_line (int k + 1) (sts ! k)) [0..<length sts]))"
    and 3: "failures (read_outcomes ?read 0 ?ws) = 1 \<longrightarrow> length sts = length ?ws - 1"
    using read_failure_skips_window[of "Some (Fin 255)" ?read 0 ?ws "''h''"] by blast
  have 4: "length sts = 2" using 3 f by simp
  show ?thesis
    by (intro conjI exI[of _ s'] exI[of _ sts] 1 2 4 e)
qed

text \<open>
  Claim C8. When the 8 by 8 grid is built, the script writes the header line
  \<^verbatim>\<open>array,minimum_cover,maximum_cover,average_cover\<close> and then, for each window of the
  grid that was read, in the order of the grid, one line made of \<^verbatim>\<open>array_\<close> and the id,
  counted from 1, and the texts of minimum, maximum and mean, separated by commas. The
  id of the \<open>k\<close>-th line (from 0) is the decimal numeral of \<open>k + 1\<close>: decimal digits,
  the first not 0, denoting \<open>k + 1\<close>. An absent value is written \<^verbatim>\<open>None\<close>.
\<close>

theorem stats_script_csv:
  assumes "create_windows ds 8 8 = Inr ws"
  shows "\<exists>sts.
     map (window_stats (ds_nodata ds)) (successes (read_outcomes read s ws)) = map Inr sts \<and>
     stats_script read ds s =
       Inr (''array,minimum_cover,maximum_cover,average_cover'' @ [CHR 0x0A] @
            concat (map (\<lambda>k. ''array_'' @ str_int (int k + 1) @ '','' @
                              str_value (fst (sts ! k)) @ '','' @
                              str_value (fst (snd (sts ! k))) @ '','' @
                              str_value (snd (snd (sts ! k))) @ [CHR 0x0A])
                      [0..<length sts])) \<and>
     (\<forall>k<length sts. list_all is_digit (str_int (int k + 1)) \<and>
        hd (str_int (int k + 1)) \<noteq> CHR ''0'' \<and> dec_value (str_int (int k + 1)) = k + 1) \<and>
     str_value None = ''None''"
proof -
  let ?succ = "successes (read_outcomes read s ws)"
  let ?sts = "map (\<lambda>a. reduce a (ds_nodata ds)) ?succ"
  obtain s' where l: "windows_loop read (ds_nodata ds) ws s 1 (columns @ [CHR 0x0A]) =
     Inr (s', 1 + int (length ?succ), (columns @ [CHR 0x0A]) @ concat (csv_rows 1 ?sts))"
    using windows_loop_rows[of read "ds_nodata ds" ws s 1 "columns @ [CHR 0x0A]"] by blast
  have a: "map (window_stats (ds_nodata ds)) ?succ = map Inr ?sts"
    by (simp add: window_stats_reduce)
  have b: "csv_rows 1 ?sts =
     map (\<lambda>k. ''array_'' @ str_int (int k + 1) @ '','' @
                              str_value (fst (?sts ! k)) @ '','' @
                              str_value (fst (snd (?sts ! k))) @ '','' @
                              str_value (snd (snd (?sts ! k))) @ [CHR 0x0A])
                      [0..<length ?sts]"
    by (simp add: csv_rows_map csv_line_def add.commute split_def)
  have c: "stats_script read ds s = Inr ((columns @ [CHR 0x0A]) @ concat (csv_rows 1 ?sts))"
    by (simp add: stats_script_def assms l)
  have d: "\<forall>k<length ?sts. list_all is_digit (str_int (int k + 1)) \<and>
        hd (str_int (int k + 1)) \<noteq> CHR ''0'' \<and> dec_value (str_int (int k + 1)) = k + 1"
    using str_int_id by blast
  show ?thesis
    by (intro exI[of _ ?sts] conjI a d) (simp_all add: c b columns_def)
qed

text \<open>
  The theorem at a raster of 16 by 16 pixels whose third read fails and whose sixth
  window holds only nodata pixels: the header and 63 lines, numbered 1 to 63.
\<close>

theorem stats_script_csv_witness:
  "(\<exists>ws sts.
     create_windows \<lparr>ds_height = 16, ds_width = 16, ds_nodata = Some (Fin 255)\<rparr> 8 8 = Inr ws \<and>
     map (window_stats (ds_nodata \<lparr>ds_height = 16, ds_width = 16, ds_nodata = Some (Fin 255)\<rparr>))
       (successes (read_outcomes
          (\<lambda>s w. (if s = (2 :: nat) then Inl ReadError
                 else if s = 5 then Inr [[255, 255]] else Inr [[0, 255], [100, 30]], s + 1))
          0 ws)) = map Inr sts \<and>
     stats_script
       (\<lambda>s w. (if s = (2 :: nat) then Inl ReadError
                 else if s = 5 then Inr [[255, 255]] else Inr [[0, 255], [100, 30]], s + 1))
       \<lparr>ds_height = 16, ds_width = 16, ds_nodata = Some (Fin 255)\<rparr> 0 =
       Inr (''array,minimum_cover,maximum_cover,average_cover'' @ [CHR 0x0A] @
            concat (map (\<lambda>k. ''array_'' @ str_int (int k + 1) @ '','' @
                              str_value (fst (sts ! k)) @ '','' @
                              str_value (fst (snd (sts ! k))) @ '','' @
                              str_value (snd (snd (sts ! k))) @ [CHR 0x0A])
                      [0..<length sts])) \<and>
     (\<forall>k<length sts. list_all is_digit (str_int (int k + 1)) \<and>
        hd (str_int (int k + 1)) \<noteq> CHR ''0'' \<and> dec_value (str_int (int k + 1)) = k + 1) \<and>
     str_value None = ''None'') \<and>
   stats_script
     (\<lambda>s w. (if s = (2 :: nat) then Inl ReadError
                 else if s = 5 then Inr [[255, 255]] else Inr [[0, 255], [100, 30]], s + 1))
     \<lparr>ds_height = 16, ds_width = 16, ds_nodata = Some (Fin 255)\<rparr> 0 =
     Inr (''array,minimum_cover,maximum_cover,average_cover'' @ [CHR 0x0A] @
          concat (map (\<lambda>line. line @ [CHR 0x0A])
           [''array_1,0.0,100.0,43.33'', ''array_2,0.0,100.0,43.33'',
            ''array_3,0.0,100.0,43.33'', ''array_4,0.0,100.0,43.33'',
            ''array_5,None,None,None'', ''array_6,0.0,100.0,43.33'',
            ''array_7,0.0,100.0,43.33'', ''array_8,0.0,100.0,43.33'',
            ''array_9,0.0,100.0,43.33'', ''array_10,0.0,100.0,43.33'',
            ''array_11,0.0,100.0,43.33'', ''array_12,0.0,100.0,43.33'',
            ''array_13,0.0,100.0,43.33'', ''array_14,0.0,100.0,43.33'',
            ''array_15,0.0,100.0,43.33'', ''array_16,0.0,100.0,43.33'',
            ''array_17,0.0,100.0,43.33'', ''array_18,0.0,100.0,43.33'',
            ''array_19,0.0,100.0,43.33'', ''array_20,0.0,100.0,43.33'',
            ''array_21,0.0,100.0,43.33'', ''array_22,0.0,100.0,43.33'',
            ''array_23,0.0,100.0,43.33'', ''array_24,0.0,100.0,43.33'',
            ''array_25,0.0,100.0,43.33'', ''array_26,0.0,100.0,43.33'',
            ''array_27,0.0,100.0,43.33'', ''array_28,0.0,100.0,43.33'',
            ''array_29,0.0,100.0,43.33'', ''array_30,0.0,100.0,43.33'',
            ''array_31,0.0,100.0,43.33'', ''array_32,0.0,100.0,43.33'',
            ''array_33,0.0,100.0,43.33'', ''array_34,0.0,100.0,43.33'',
            ''array_35,0.0,100.0,43.33'', ''array_36,0.0,100.0,43.33'',
            ''array_37,0.0,100.0,43.33'', ''array_38,0.0,100.0,43.33'',
            ''array_39,0.0,100.0,43.33'', ''array_40,0.0,100.0,43.33'',
            ''array_41,0.0,100.0,43.33'', ''array_42,0.0,100.0,43.33'',
            ''array_43,0.0,100.0,43.33'', ''array_44,0.0,100.0,43.33'',
            ''array_45,0.0,100.0,43.33'', ''array_46,0.0,100.0,43.33'',
            ''array_47,0.0,100.0,43.33'', ''array_48,0.0,100.0,43.33'',
            ''array_49,0.0,100.0,43.33'', ''array_50,0.0,100.0,43.33'',
            ''array_51,0.0,100.0,43.33'', ''array_52,0.0,100.0,43.33'',
            ''array_53,0.0,100.0,43.33'', ''array_54,0.0,100.0,43.33'',
            ''array_55,0.0,100.0,43.33'', ''array_56,0.0,100.0,43.33'',
            ''array_57,0.0,100.0,43.33'', ''array_58,0.0,100.0,43.33'',
            ''array_59,0.0,100.0,43.33'', ''array_60,0.0,100.0,43.33'',
            ''array_61,0.0,100.0,43.33'', ''array_62,0.0,100.0,43.33'',
            ''array_63,0.0,100.0,43.33'']))"
proof -
  let ?read = "\<lambda>s w. (if s = (2 :: nat) then Inl ReadError
                 else if s = 5 then Inr [[255, 255]] else Inr [[0, 255], [100, 30 :: int]], s + 1)"
  let ?ds = "\<lparr>ds_height = 16, ds_width = 16, ds_nodata = Some (Fin 255)\<rparr>"
  have c: "create_windows ?ds 8 8 = Inr (grid ?ds 8 8)"
    by (rule create_windows_fits) (simp_all add: ceil_div_eq_div)
  have st: "window_stats (Some (Fin 255)) [[0, 255], [100, 30]] =
     Inr (Some (Fin 0), Some (Fin 100), Some (Fin (fl64 (4333 / 100))))"
    by code_simp
  have nn: "window_stats (Some (Fin 255)) [[255, 255]] = Inr (None, None, None)"
    by code_simp
  have ll: "csv_line k (None, None, None) = ''array_'' @ str_int k @ '',None,None,None'' @ [CHR 0x0A]"
    for k
    unfolding csv_line_def by simp
  have sv: "str_value (Some (Fin 0)) = ''0.0''" "str_value (Some (Fin 100)) = ''100.0''"
    "str_value (Some (Fin (fl64 (4333 / 100)))) = ''43.33''"
    by code_simp+
  have ln: "csv_line k (Some (Fin 0), Some (Fin 100), Some (Fin (fl64 (4333 / 100)))) =
     ''array_'' @ str_int k @ '',0.0,100.0,43.33'' @ [CHR 0x0A]" for k
    unfolding csv_line_def by (simp add: sv del: str_value.simps)
  have e: "stats_script ?read ?ds 0 =
     Inr (''array,minimum_cover,maximum_cover,average_cover'' @ [CHR 0x0A] @
          concat (map (\<lambda>line. line @ [CHR 0x0A])
           [''array_1,0.0,100.0,43.33'', ''array_2,0.0,100.0,43.33'',
            ''array_3,0.0,100.0,43.33'', ''array_4,0.0,100.0,43.33'',
            ''array_5,None,None,None'', ''array_6,0.0,100.0,43.33'',
            ''array_7,0.0,100.0,43.33'', ''array_8,0.0,100.0,43.33'',
            ''array_9,0.0,100.0,43.33'', ''array_10,0.0,100.0,43.33'',
            ''array_11,0.0,100.0,43.33'', ''array_12,0.0,100.0,43.33'',
            ''array_13,0.0,100.0,43.33'', ''array_14,0.0,100.0,43.33'',
            ''array_15,0.0,100.0,43.33'', ''array_16,0.0,100.0,43.33'',
            ''array_17,0.0,100.0,43.33'', ''array_18,0.0,100.0,43.33'',
            ''array_19,0.0,100.0,43.33'', ''array_20,0.0,100.0,43.33'',
            ''array_21,0.0,100.0,43.33'', ''array_22,0.0,100.0,43.33'',
            ''array_23,0.0,100.0,43.33'', ''array_24,0.0,100.0,43.33'',
            ''array_25,0.0,100.0,43.33'', ''array_26,0.0,100.0,43.33'',
            ''array_27,0.0,100.0,43.33'', ''array_28,0.0,100.0,43.33'',
            ''array_29,0.0,100.0,43.33'', ''array_30,0.0,100.0,43.33'',
            ''array_31,0.0,100.0,43.33'', ''array_32,0.0,100.0,43.33'',
            ''array_33,0.0,100.0,43.33'', ''array_34,0.0,100.0,43.33'',
            ''array_35,0.0,100.0,43.33'', ''array_36,0.0,100.0,43.33'',
            ''array_37,0.0,100.0,43.33'', ''array_38,0.0,100.0,43.33'',
            ''array_39,0.0,100.0,43.33'', ''array_40,0.0,100.0,43.33'',
            ''array_41,0.0,100.0,43.33'', ''array_42,0.0,100.0,43.33'',
            ''array_43,0.0,100.0,43.33'', ''array_44,0.0,100.0,43.33'',
            ''array_45,0.0,100.0,43.33'', ''array_46,0.0,100.0,43.33'',
            ''array_47,0.0,100.0,43.33'', ''array_48,0.0,100.0,43.33'',
            ''array_49,0.0,100.0,43.33'', ''array_50,0.0,100.0,43.33'',
            ''array_51,0.0,100.0,43.33'', ''array_52,0.0,100.0,43.33'',
            ''array_53,0.0,100.0,43.33'', ''array_54,0.0,100.0,43.33'',
            ''array_55,0.0,100.0,43.33'', ''array_56,0.0,100.0,43.33'',
            ''array_57,0.0,100.0,43.33'', ''array_58,0.0,100.0,43.33'',
            ''array_59,0.0,100.0,43.33'', ''array_60,0.0,100.0,43.33'',
            ''array_61,0.0,100.0,43.33'', ''array_62,0.0,100.0,43.33'',
            ''array_63,0.0,100.0,43.33'']))"
    by (simp add: stats_script_def c grid_def upto.simps window_at_def st ln nn ll
        str_int_def str_nat.simps digit_char_def columns_def)
  have i: "\<exists>ws sts.
     create_windows ?ds 8 8 = Inr ws \<and>
     map (window_stats (ds_nodata ?ds)) (successes (read_outcomes ?read 0 ws)) = map Inr sts \<and>
     stats_script ?read ?ds 0 =
       Inr (''array,minimum_cover,maximum_cover,average_cover'' @ [CHR 0x0A] @
            concat (map (\<lambda>k. ''array_'' @ str_int (int k + 1) @ '','' @
                              str_value (fst (sts ! k)) @ '','' @
                              str_value (fst (snd (sts ! k))) @ '','' @
                              str_value (snd (snd (sts ! k))) @ [CHR 0x0A])
                      [0..<length sts])) \<and>
     (\<forall>k<length sts. list_all is_digit (str_int (int k + 1)) \<and>
        hd (str_int (int k + 1)) \<noteq> CHR ''0'' \<and> dec_value (str_int (int k + 1)) = k + 1) \<and>
     str_value None = ''None''"
    using stats_script_csv[OF c, of ?read 0] c by blast
  show ?thesis by (rule conjI[OF i e])
qed

end
